theory Spec2Isabelle
  imports Main
begin

section \<open>Memory model\<close>

text \<open>
  The library is an intrusive doubly-linked list: the links live inside the elements and
  the container only rewires pointers. A pointer is an optional address, \<open>None\<close> being
  \<open>nullptr\<close>. The store holds every \<open>list_element\<close> object (the hooks of the elements and
  the \<open>after_last\<close> member of every list) and, for every list, its \<open>first\<close> field. A list
  object is identified by the address of its \<open>after_last\<close> member, which is what
  \<open>end()\<close> points to.

  The repository has two versions of the header. Definitions taken from
  \<^verbatim>\<open>src/intrusive_list.h\<close> carry the suffix \<open>_h\<close>, those taken from
  \<^verbatim>\<open>src/unnamed/part_000\<close> the suffix \<open>_u\<close>. In the first an empty list has
  \<open>first == nullptr\<close>, in the second \<open>first == &after_last\<close>.

  Dereferencing \<open>nullptr\<close> is undefined behaviour; an operation that would do so returns
  \<open>None\<close>.
\<close>

type_synonym addr = nat
type_synonym ptr = "addr option"

record list_element =
  prev :: ptr
  "next" :: ptr

record store =
  elem :: "addr \<Rightarrow> list_element"
  first :: "addr \<Rightarrow> ptr"

definition get_prev :: "store \<Rightarrow> addr \<Rightarrow> ptr" where
  "get_prev s p = prev (elem s p)"

definition get_next :: "store \<Rightarrow> addr \<Rightarrow> ptr" where
  "get_next s p = next (elem s p)"

definition get_first :: "store \<Rightarrow> addr \<Rightarrow> ptr" where
  "get_first s l = first s l"

definition set_prev :: "store \<Rightarrow> addr \<Rightarrow> ptr \<Rightarrow> store" where
  "set_prev s p v = s\<lparr>elem := (elem s)(p := (elem s p)\<lparr>prev := v\<rparr>)\<rparr>"

definition set_next :: "store \<Rightarrow> addr \<Rightarrow> ptr \<Rightarrow> store" where
  "set_next s p v = s\<lparr>elem := (elem s)(p := (elem s p)\<lparr>next := v\<rparr>)\<rparr>"

definition set_first :: "store \<Rightarrow> addr \<Rightarrow> ptr \<Rightarrow> store" where
  "set_first s l v = s\<lparr>first := (first s)(l := v)\<rparr>"

text \<open>A store in which every pointer is null.\<close>

definition null_store :: store where
  "null_store = \<lparr>elem = (\<lambda>_. \<lparr>prev = None, next = None\<rparr>), first = (\<lambda>_. None)\<rparr>"

section \<open>\<open>list_element\<close>\<close>

text \<open>
  \<open>list_element::unlink\<close> of \<^verbatim>\<open>src/intrusive_list.h\<close>: two guarded writes to the
  neighbours; the element's own fields are not written.
\<close>

definition unlink_h :: "store \<Rightarrow> addr \<Rightarrow> store" where
  "unlink_h s p =
     (let s1 = (case get_prev s p of
                  None \<Rightarrow> s
                | Some q \<Rightarrow> set_next s q (get_next s p));
          s2 = (case get_next s1 p of
                  None \<Rightarrow> s1
                | Some n \<Rightarrow> set_prev s1 n (get_prev s1 p))
      in s2)"

text \<open>
  \<open>list_element::unlink\<close> of \<^verbatim>\<open>src/unnamed/part_000\<close>: the first branch also sets
  \<open>next = nullptr\<close>, the second also sets \<open>prev = nullptr\<close>; the second test reads
  \<open>next\<close> after the first branch has run.
\<close>

definition unlink_u :: "store \<Rightarrow> addr \<Rightarrow> store" where
  "unlink_u s p =
     (let s1 = (case get_prev s p of
                  None \<Rightarrow> s
                | Some q \<Rightarrow> set_next (set_next s q (get_next s p)) p None);
          s2 = (case get_next s1 p of
                  None \<Rightarrow> s1
                | Some n \<Rightarrow> set_prev (set_prev s1 n (get_prev s1 p)) p None)
      in s2)"

text \<open>The destructor \<open>~list_element\<close> only calls \<open>unlink\<close>, in both files.\<close>

definition destroy_h :: "store \<Rightarrow> addr \<Rightarrow> store" where
  "destroy_h s p = unlink_h s p"

definition destroy_u :: "store \<Rightarrow> addr \<Rightarrow> store" where
  "destroy_u s p = unlink_u s p"

section \<open>\<open>list_iterator\<close>\<close>

text \<open>
  An iterator holds \<open>current\<close>, a pointer to a \<open>list_element\<close>. \<open>operator*\<close> casts
  \<open>*current\<close> to the element type: the result is the element at that address, and a null
  \<open>current\<close> is undefined behaviour. \<open>operator++\<close> of \<^verbatim>\<open>src/intrusive_list.h\<close> leaves a
  null iterator as it is; that of \<^verbatim>\<open>src/unnamed/part_000\<close> dereferences it.
\<close>

definition deref :: "ptr \<Rightarrow> addr option" where
  "deref cur = cur"

definition inc_h :: "store \<Rightarrow> ptr \<Rightarrow> ptr option" where
  "inc_h s cur = (case cur of None \<Rightarrow> Some None | Some c \<Rightarrow> Some (get_next s c))"

definition dec_h :: "store \<Rightarrow> ptr \<Rightarrow> ptr option" where
  "dec_h s cur = (case cur of None \<Rightarrow> Some None | Some c \<Rightarrow> Some (get_prev s c))"

definition inc_u :: "store \<Rightarrow> ptr \<Rightarrow> ptr option" where
  "inc_u s cur = (case cur of None \<Rightarrow> None | Some c \<Rightarrow> Some (get_next s c))"

definition dec_u :: "store \<Rightarrow> ptr \<Rightarrow> ptr option" where
  "dec_u s cur = (case cur of None \<Rightarrow> None | Some c \<Rightarrow> Some (get_prev s c))"

section \<open>\<open>list\<close> of \<^verbatim>\<open>src/intrusive_list.h\<close>\<close>

text \<open>The default constructor: \<open>first = nullptr\<close>, \<open>after_last{}\<close>.\<close>

definition list_h :: "store \<Rightarrow> addr \<Rightarrow> store" where
  "list_h s l = set_first (set_next (set_prev s l None) l None) l None"

definition clear_h :: "store \<Rightarrow> addr \<Rightarrow> store" where
  "clear_h s l = set_first (set_prev s l None) l None"

definition end_h :: "addr \<Rightarrow> ptr" where
  "end_h l = Some l"

definition begin_h :: "store \<Rightarrow> addr \<Rightarrow> ptr" where
  "begin_h s l = (if get_first s l = None then end_h l else get_first s l)"

definition empty_h :: "store \<Rightarrow> addr \<Rightarrow> bool" where
  "empty_h s l = (get_first s l = None)"

definition front_h :: "store \<Rightarrow> addr \<Rightarrow> addr option" where
  "front_h s l = get_first s l"

definition back_h :: "store \<Rightarrow> addr \<Rightarrow> addr option" where
  "back_h s l = get_prev s l"

definition push_back_h :: "store \<Rightarrow> addr \<Rightarrow> addr \<Rightarrow> store" where
  "push_back_h s l p =
     (let s1 = (case get_prev s l of
                  None \<Rightarrow> s
                | Some q \<Rightarrow>
                    (let t = set_next s q (Some p) in set_prev t p (get_prev t l)));
          s2 = set_prev s1 l (Some p);
          s3 = set_next s2 p (Some l)
      in if get_first s3 l = None then set_first s3 l (get_prev s3 l) else s3)"

text \<open>
  In \<open>pop_back\<close> the write goes to a \<open>next\<close> field, so \<open>after_last.prev\<close> is still \<open>q\<close>
  when it is read again; in \<open>pop_front\<close> the write goes to a \<open>prev\<close> field and \<open>first\<close>
  is still \<open>f\<close>.
\<close>

definition pop_back_h :: "store \<Rightarrow> addr \<Rightarrow> store" where
  "pop_back_h s l =
     (case get_prev s l of
        None \<Rightarrow> clear_h s l
      | Some q \<Rightarrow>
          (case get_prev s q of
             None \<Rightarrow> clear_h s l
           | Some r \<Rightarrow>
               (let s1 = set_next s r (Some l)
                in set_prev s1 l (get_prev s1 q))))"

definition push_front_h :: "store \<Rightarrow> addr \<Rightarrow> addr \<Rightarrow> store" where
  "push_front_h s l p =
     (let s1 = set_prev s p None;
          s2 = (case get_first s1 l of
                  None \<Rightarrow> s1
                | Some f \<Rightarrow>
                    (let t = set_prev s1 f (Some p) in set_next t p (get_first t l)));
          s3 = set_first s2 l (Some p)
      in if get_prev s3 l = None then set_prev s3 l (get_first s3 l) else s3)"

definition pop_front_h :: "store \<Rightarrow> addr \<Rightarrow> store" where
  "pop_front_h s l =
     (case get_first s l of
        None \<Rightarrow> clear_h s l
      | Some f \<Rightarrow>
          (case get_next s f of
             None \<Rightarrow> clear_h s l
           | Some n \<Rightarrow>
               (let s1 = set_prev s n None
                in set_first s1 l (get_next s1 f))))"

text \<open>
  \<open>insert\<close> returns the store and the iterator to the new element; a null \<open>pos\<close> is
  dereferenced, which is undefined.
\<close>

definition insert_h :: "store \<Rightarrow> addr \<Rightarrow> ptr \<Rightarrow> addr \<Rightarrow> (store \<times> ptr) option" where
  "insert_h s l pos new_el =
     (case pos of
        None \<Rightarrow> None
      | Some p \<Rightarrow>
          (let s1 = (case get_prev s p of
                       Some q \<Rightarrow> set_next s q (Some new_el)
                     | None \<Rightarrow> set_first s l (Some new_el));
               s2 = set_prev s1 new_el (get_prev s1 p);
               s3 = set_prev s2 p (Some new_el);
               s4 = set_next s3 new_el (Some p)
           in Some (s4, Some new_el)))"

text \<open>
  \<open>erase\<close>: when \<open>pos != end()\<close> it dereferences \<open>pos\<close> and \<open>pos->next\<close>; otherwise it
  returns \<open>end()\<close> and writes nothing.
\<close>

definition erase_h :: "store \<Rightarrow> addr \<Rightarrow> ptr \<Rightarrow> (store \<times> ptr) option" where
  "erase_h s l pos =
     (if pos \<noteq> end_h l then
        (case pos of
           None \<Rightarrow> None
         | Some p \<Rightarrow>
             (case get_next s p of
                None \<Rightarrow> None
              | Some n \<Rightarrow>
                  (let s1 = set_prev s n (get_prev s p);
                       s2 = (case get_prev s1 p of
                               Some q \<Rightarrow> set_next s1 q (get_next s1 p)
                             | None \<Rightarrow> set_first s1 l (get_next s1 p))
                   in Some (s2, get_next s2 p))))
      else Some (s, end_h l))"

text \<open>
  \<open>splice(it0, donor, it1, it2)\<close> on the list \<open>l\<close>. The three iterators are dereferenced
  (\<open>from->prev\<close>, \<open>after_incision->prev\<close>, \<open>to->prev\<close>), and so is \<open>to->prev\<close>.
\<close>

definition splice_h :: "store \<Rightarrow> addr \<Rightarrow> ptr \<Rightarrow> addr \<Rightarrow> ptr \<Rightarrow> ptr \<Rightarrow> store option" where
  "splice_h s l it0 donor it1 it2 =
     (if it1 = it2 then Some s
      else
        (case (it0, it1, it2) of
           (Some after_incision, Some from, Some to) \<Rightarrow>
             (let s1 = (case get_prev s from of
                          Some q \<Rightarrow> set_next s q (Some to)
                        | None \<Rightarrow>
                            (if it2 \<noteq> end_h donor then set_first s donor (Some to)
                             else set_first s donor None));
                  s2 = (case get_prev s1 after_incision of
                          Some q \<Rightarrow> set_next s1 q (Some from)
                        | None \<Rightarrow> set_first s1 l (Some from));
                  before_incision = get_prev s2 after_incision;
                  s3 = set_prev s2 after_incision (get_prev s2 to)
              in case get_prev s3 to of
                   None \<Rightarrow> None
                 | Some tp \<Rightarrow>
                     (let s4 = set_next s3 tp (Some after_incision);
                          s5 = set_prev s4 to (get_prev s4 from);
                          s6 = set_prev s5 from before_incision
                      in Some s6))
         | _ \<Rightarrow> None))"

text \<open>Move assignment \<open>operator=(list &&other)\<close> and the move constructor.\<close>

definition move_assign_h :: "store \<Rightarrow> addr \<Rightarrow> addr \<Rightarrow> store" where
  "move_assign_h s l other =
     (let s1 = set_first s l (get_first s other);
          s2 = set_prev s1 l (get_prev s1 other);
          s3 = (case get_prev s2 l of
                  None \<Rightarrow> s2
                | Some q \<Rightarrow> set_next s2 q (Some l));
          s4 = set_first s3 other None
      in set_prev s4 other None)"

definition move_ctor_h :: "store \<Rightarrow> addr \<Rightarrow> addr \<Rightarrow> store" where
  "move_ctor_h s l other = move_assign_h (list_h s l) l other"

section \<open>\<open>list\<close> of \<^verbatim>\<open>src/unnamed/part_000\<close>\<close>

text \<open>The default constructor: \<open>after_last{}\<close>, \<open>first = &after_last\<close>.\<close>

definition list_u :: "store \<Rightarrow> addr \<Rightarrow> store" where
  "list_u s l = set_first (set_next (set_prev s l None) l None) l (Some l)"

definition clear_u :: "store \<Rightarrow> addr \<Rightarrow> store" where
  "clear_u s l = set_prev (set_first s l (Some l)) l None"

definition end_u :: "addr \<Rightarrow> ptr" where
  "end_u l = Some l"

definition begin_u :: "store \<Rightarrow> addr \<Rightarrow> ptr" where
  "begin_u s l = get_first s l"

definition empty_u :: "store \<Rightarrow> addr \<Rightarrow> bool" where
  "empty_u s l = (get_first s l = Some l)"

definition front_u :: "store \<Rightarrow> addr \<Rightarrow> addr option" where
  "front_u s l = get_first s l"

definition back_u :: "store \<Rightarrow> addr \<Rightarrow> addr option" where
  "back_u s l = get_prev s l"

definition insert_u :: "store \<Rightarrow> addr \<Rightarrow> ptr \<Rightarrow> addr \<Rightarrow> (store \<times> ptr) option" where
  "insert_u s l pos new_el =
     (case pos of
        None \<Rightarrow> None
      | Some p \<Rightarrow>
          (let s1 = (case get_prev s p of
                       Some q \<Rightarrow> set_next s q (Some new_el)
                     | None \<Rightarrow> set_first s l (Some new_el));
               s2 = set_prev s1 new_el (get_prev s1 p);
               s3 = set_prev s2 p (Some new_el);
               s4 = set_next s3 new_el (Some p)
           in Some (s4, Some new_el)))"

definition erase_u :: "store \<Rightarrow> addr \<Rightarrow> ptr \<Rightarrow> (store \<times> ptr) option" where
  "erase_u s l pos =
     (if pos \<noteq> end_u l then
        (case pos of
           None \<Rightarrow> None
         | Some p \<Rightarrow>
             (case get_next s p of
                None \<Rightarrow> None
              | Some n \<Rightarrow>
                  (let s1 = set_prev s n (get_prev s p);
                       s2 = (case get_prev s1 p of
                               Some q \<Rightarrow> set_next s1 q (get_next s1 p)
                             | None \<Rightarrow> set_first s1 l (get_next s1 p))
                   in Some (s2, get_next s2 p))))
      else Some (s, end_u l))"

definition push_back_u :: "store \<Rightarrow> addr \<Rightarrow> addr \<Rightarrow> store option" where
  "push_back_u s l p = map_option fst (insert_u s l (end_u l) p)"

definition push_front_u :: "store \<Rightarrow> addr \<Rightarrow> addr \<Rightarrow> store option" where
  "push_front_u s l p = map_option fst (insert_u s l (begin_u s l) p)"

definition pop_back_u :: "store \<Rightarrow> addr \<Rightarrow> store option" where
  "pop_back_u s l = map_option fst (erase_u s l (get_prev s l))"

definition pop_front_u :: "store \<Rightarrow> addr \<Rightarrow> store option" where
  "pop_front_u s l = map_option fst (erase_u s l (begin_u s l))"

definition splice_u :: "store \<Rightarrow> addr \<Rightarrow> ptr \<Rightarrow> addr \<Rightarrow> ptr \<Rightarrow> ptr \<Rightarrow> store option" where
  "splice_u s l it0 donor it1 it2 =
     (if it1 = it2 then Some s
      else
        (case (it0, it1, it2) of
           (Some after_incision, Some from, Some to) \<Rightarrow>
             (let s1 = (case get_prev s from of
                          Some q \<Rightarrow> set_next s q (Some to)
                        | None \<Rightarrow>
                            (if it2 \<noteq> end_u donor then set_first s donor (Some to)
                             else set_first s donor (Some donor)));
                  s2 = (case get_prev s1 after_incision of
                          Some q \<Rightarrow> set_next s1 q (Some from)
                        | None \<Rightarrow> set_first s1 l (Some from));
                  before_incision = get_prev s2 after_incision;
                  s3 = set_prev s2 after_incision (get_prev s2 to)
              in case get_prev s3 to of
                   None \<Rightarrow> None
                 | Some tp \<Rightarrow>
                     (let s4 = set_next s3 tp (Some after_incision);
                          s5 = set_prev s4 to (get_prev s4 from);
                          s6 = set_prev s5 from before_incision
                      in Some s6))
         | _ \<Rightarrow> None))"

definition move_assign_u :: "store \<Rightarrow> addr \<Rightarrow> addr \<Rightarrow> store option" where
  "move_assign_u s l other =
     (let s1 = clear_u s l
      in splice_u s1 l (begin_u s1 l) other (begin_u s1 other) (end_u other))"

definition move_ctor_u :: "store \<Rightarrow> addr \<Rightarrow> addr \<Rightarrow> store option" where
  "move_ctor_u s l other =
     (let s1 = list_u s l
      in splice_u s1 l (begin_u s1 l) other (begin_u s1 other) (end_u other))"

section \<open>Iterating a list\<close>

text \<open>
  The loop \<open>for (it = b; it != e; ++it) out.push_back(&*it)\<close> of a client, with the
  number of loop tests bounded by a counter: \<open>None\<close> when the loop dereferences a null
  iterator or has not reached \<open>e\<close> within the bound.
\<close>

fun iterate_h :: "nat \<Rightarrow> store \<Rightarrow> ptr \<Rightarrow> ptr \<Rightarrow> addr list option" where
  "iterate_h 0 s it e = None"
| "iterate_h (Suc n) s it e =
     (if it = e then Some []
      else
        (case deref it of
           None \<Rightarrow> None
         | Some x \<Rightarrow>
             (case inc_h s it of
                None \<Rightarrow> None
              | Some it' \<Rightarrow> map_option (\<lambda>xs. x # xs) (iterate_h n s it' e))))"

fun iterate_u :: "nat \<Rightarrow> store \<Rightarrow> ptr \<Rightarrow> ptr \<Rightarrow> addr list option" where
  "iterate_u 0 s it e = None"
| "iterate_u (Suc n) s it e =
     (if it = e then Some []
      else
        (case deref it of
           None \<Rightarrow> None
         | Some x \<Rightarrow>
             (case inc_u s it of
                None \<Rightarrow> None
              | Some it' \<Rightarrow> map_option (\<lambda>xs. x # xs) (iterate_u n s it' e))))"

definition to_list_h :: "nat \<Rightarrow> store \<Rightarrow> addr \<Rightarrow> addr list option" where
  "to_list_h n s l = iterate_h n s (begin_h s l) (end_h l)"

definition to_list_u :: "nat \<Rightarrow> store \<Rightarrow> addr \<Rightarrow> addr list option" where
  "to_list_u n s l = iterate_u n s (begin_u s l) (end_u l)"

section \<open>Clients and representation invariants\<close>

text \<open>
  A client that constructs a list at \<open>l\<close> in the store \<open>s\<close> and calls \<open>push_back\<close> for
  the elements at the addresses \<open>xs\<close>, in that order.
\<close>

definition build_h :: "store \<Rightarrow> addr \<Rightarrow> addr list \<Rightarrow> store" where
  "build_h s l xs = fold (\<lambda>x s. push_back_h s l x) xs (list_h s l)"

definition build_u :: "store \<Rightarrow> addr \<Rightarrow> addr list \<Rightarrow> store option" where
  "build_u s l xs =
     fold (\<lambda>x r. Option.bind r (\<lambda>s. push_back_u s l x)) xs (Some (list_u s l))"



text \<open>
  A store with two lists, one at 0 with the elements 1, 2, 3 and one at 10 with the
  elements 11, 12, 13, built by each file's own operations.
\<close>

definition two_lists_h :: store where
  "two_lists_h = build_h (build_h null_store 0 [1, 2, 3]) 10 [11, 12, 13]"

definition two_lists_u :: "store option" where
  "two_lists_u = Option.bind (build_u null_store 0 [1, 2, 3]) (\<lambda>s. build_u s 10 [11, 12, 13])"

text \<open>
  A store of \<^verbatim>\<open>src/intrusive_list.h\<close> in which the list at 10 has received one
  element by \<open>push_back\<close> and lost it by \<open>pop_front\<close>, and a new list has been
  constructed at 0.
\<close>

definition emptied_h :: store where
  "emptied_h = list_h (pop_front_h (push_back_h (list_h null_store 10) 10 11) 10) 0"

text \<open>
  \<open>linked s zs\<close>: every two consecutive nodes of \<open>zs\<close> point to each other, the first
  with \<open>next\<close> and the second with \<open>prev\<close>.
\<close>

fun linked :: "store \<Rightarrow> addr list \<Rightarrow> bool" where
  "linked s [] = True"
| "linked s [x] = True"
| "linked s (x # y # zs) =
     (get_next s x = Some y \<and> get_prev s y = Some x \<and> linked s (y # zs))"

text \<open>
  The list at \<open>l\<close> holds exactly the members \<open>xs\<close>, in this order: the members followed by
  \<open>after_last\<close> are distinct and linked, the first of them has a null \<open>prev\<close>, and
  \<open>first\<close> is what the file's constructor, \<open>empty()\<close> and \<open>begin()\<close> expect: null for an
  empty list in \<^verbatim>\<open>src/intrusive_list.h\<close>, \<open>&after_last\<close> in
  \<^verbatim>\<open>src/unnamed/part_000\<close>.
\<close>

definition chain_h :: "store \<Rightarrow> addr \<Rightarrow> addr list \<Rightarrow> bool" where
  "chain_h s l xs =
     (distinct (xs @ [l]) \<and> linked s (xs @ [l]) \<and> get_prev s (hd (xs @ [l])) = None \<and>
      get_first s l = (if xs = [] then None else Some (hd xs)))"

definition chain_u :: "store \<Rightarrow> addr \<Rightarrow> addr list \<Rightarrow> bool" where
  "chain_u s l xs =
     (distinct (xs @ [l]) \<and> linked s (xs @ [l]) \<and> get_prev s (hd (xs @ [l])) = None \<and>
      get_first s l = Some (hd (xs @ [l])))"

text \<open>
  \<open>frame s s' N L\<close>: the store \<open>s'\<close> differs from \<open>s\<close> at most in the links of the nodes
  in \<open>N\<close> and in the \<open>first\<close> fields of the lists in \<open>L\<close>.
\<close>

definition frame :: "store \<Rightarrow> store \<Rightarrow> addr set \<Rightarrow> addr set \<Rightarrow> bool" where
  "frame s s' N L =
     ((\<forall>y. y \<notin> N \<longrightarrow> get_prev s' y = get_prev s y \<and> get_next s' y = get_next s y) \<and>
      (\<forall>m. m \<notin> L \<longrightarrow> get_first s' m = get_first s m))"

text \<open>The last node of a path as a pointer, null for the empty path.\<close>

definition lastp :: "addr list \<Rightarrow> ptr" where
  "lastp zs = (if zs = [] then None else Some (last zs))"

text \<open>
  \<open>rewired s s' a f t z\<close>: the links of \<open>s'\<close> are those of \<open>s\<close> after \<open>splice\<close> has moved
  the range from \<open>f\<close> up to, not including, \<open>t\<close> in front of \<open>a\<close>, where \<open>z\<close> is the node
  before \<open>t\<close>. Three \<open>next\<close> fields are written (of the nodes before \<open>f\<close> and before \<open>a\<close>,
  when there are such, and of \<open>z\<close>) and three \<open>prev\<close> fields (of \<open>a\<close>, \<open>t\<close> and \<open>f\<close>); a
  later write wins.
\<close>

definition rewired :: "store \<Rightarrow> store \<Rightarrow> addr \<Rightarrow> addr \<Rightarrow> addr \<Rightarrow> addr \<Rightarrow> bool" where
  "rewired s s' a f t z =
     ((\<forall>x. get_next s' x =
         (if x = z then Some a else if get_prev s a = Some x then Some f
          else if get_prev s f = Some x then Some t else get_next s x)) \<and>
      (\<forall>x. get_prev s' x =
         (if x = f then get_prev s a else if x = t then get_prev s f
          else if x = a then Some z else get_prev s x)))"

section \<open>Reading and writing the store\<close>

lemma get_prev_simps [simp]:
  "get_prev (set_prev s p v) q = (if q = p then v else get_prev s q)"
  "get_prev (set_next s p v) q = get_prev s q"
  "get_prev (set_first s l v) q = get_prev s q"
  by (simp_all add: get_prev_def set_prev_def set_next_def set_first_def)

lemma get_next_simps [simp]:
  "get_next (set_next s p v) q = (if q = p then v else get_next s q)"
  "get_next (set_prev s p v) q = get_next s q"
  "get_next (set_first s l v) q = get_next s q"
  by (simp_all add: get_next_def set_prev_def set_next_def set_first_def)

lemma get_first_simps [simp]:
  "get_first (set_first s l v) m = (if m = l then v else get_first s m)"
  "get_first (set_prev s p v) m = get_first s m"
  "get_first (set_next s p v) m = get_first s m"
  by (simp_all add: get_first_def set_prev_def set_next_def set_first_def)

lemma get_null_store [simp]:
  "get_prev null_store p = None"
  "get_next null_store p = None"
  "get_first null_store l = None"
  by (simp_all add: get_prev_def get_next_def get_first_def null_store_def)

text \<open>Two stores with the same fields everywhere are the same store.\<close>

lemma store_eqI:
  assumes "\<And>p. get_prev s p = get_prev t p"
    and "\<And>p. get_next s p = get_next t p"
    and "\<And>l. get_first s l = get_first t l"
  shows "s = (t::store)"
proof -
  have "elem s = elem t"
  proof
    fix p
    show "elem s p = elem t p"
      using assms(1) [of p] assms(2) [of p] by (simp add: get_prev_def get_next_def)
  qed
  moreover have "first s = first t"
    using assms(3) by (auto simp: get_first_def)
  ultimately show ?thesis by simp
qed


section \<open>Linked paths and chains\<close>

lemma linked_Cons:
  "linked s (x # zs) =
     (zs = [] \<or> (get_next s x = Some (hd zs) \<and> get_prev s (hd zs) = Some x \<and> linked s zs))"
  by (cases zs) auto

lemma linked_append:
  "linked s (as @ bs) =
     (linked s as \<and> linked s bs \<and>
      (as \<noteq> [] \<and> bs \<noteq> [] \<longrightarrow>
         get_next s (last as) = Some (hd bs) \<and> get_prev s (hd bs) = Some (last as)))"
proof (induction as rule: linked.induct)
  case (1 s) then show ?case by simp
next
  case (2 s x) then show ?case by (cases bs) auto
next
  case (3 s x y zs) then show ?case by auto
qed

lemma linked_set_first [simp]: "linked (set_first s l v) zs = linked s zs"
  by (induction s zs rule: linked.induct) auto

lemma linked_set_next [simp]: "p \<notin> set (butlast zs) \<Longrightarrow> linked (set_next s p v) zs = linked s zs"
  by (induction s zs rule: linked.induct) auto

lemma linked_set_prev [simp]: "p \<notin> set (tl zs) \<Longrightarrow> linked (set_prev s p v) zs = linked s zs"
  by (induction s zs rule: linked.induct) auto

lemma iterate_h_linked:
  "distinct (xs @ [l]) \<Longrightarrow> linked s (xs @ [l]) \<Longrightarrow> length xs < n \<Longrightarrow>
   iterate_h n s (Some (hd (xs @ [l]))) (Some l) = Some xs"
proof (induction xs arbitrary: n)
  case Nil
  then show ?case by (cases n) auto
next
  case (Cons x xs)
  then obtain m where n: "n = Suc m" by (cases n) auto
  from Cons.prems have nx: "get_next s x = Some (hd (xs @ [l]))" by (cases xs) auto
  from Cons.prems have lk: "linked s (xs @ [l])" by (cases xs) auto
  from Cons.prems have "x \<noteq> l" by auto
  moreover have "iterate_h m s (Some (hd (xs @ [l]))) (Some l) = Some xs"
    using Cons.IH[of m] Cons.prems lk n by auto
  ultimately show ?case using n nx by (simp add: deref_def inc_h_def)
qed

lemma iterate_u_linked:
  "distinct (xs @ [l]) \<Longrightarrow> linked s (xs @ [l]) \<Longrightarrow> length xs < n \<Longrightarrow>
   iterate_u n s (Some (hd (xs @ [l]))) (Some l) = Some xs"
proof (induction xs arbitrary: n)
  case Nil
  then show ?case by (cases n) auto
next
  case (Cons x xs)
  then obtain m where n: "n = Suc m" by (cases n) auto
  from Cons.prems have nx: "get_next s x = Some (hd (xs @ [l]))" by (cases xs) auto
  from Cons.prems have lk: "linked s (xs @ [l])" by (cases xs) auto
  from Cons.prems have "x \<noteq> l" by auto
  moreover have "iterate_u m s (Some (hd (xs @ [l]))) (Some l) = Some xs"
    using Cons.IH[of m] Cons.prems lk n by auto
  ultimately show ?case using n nx by (simp add: deref_def inc_u_def)
qed

lemma chain_h_to_list: "chain_h s l xs \<Longrightarrow> length xs < n \<Longrightarrow> to_list_h n s l = Some xs"
  using iterate_h_linked[of xs l s n]
  by (cases xs) (auto simp: chain_h_def to_list_h_def begin_h_def end_h_def)

lemma chain_u_to_list: "chain_u s l xs \<Longrightarrow> length xs < n \<Longrightarrow> to_list_u n s l = Some xs"
  using iterate_u_linked[of xs l s n]
  by (auto simp: chain_u_def to_list_u_def begin_u_def end_u_def)

lemma chain_h_empty: "chain_h s l xs \<Longrightarrow> empty_h s l = (xs = [])"
  by (auto simp: chain_h_def empty_h_def)

lemma chain_u_empty: "chain_u s l xs \<Longrightarrow> empty_u s l = (xs = [])"
  by (cases xs) (auto simp: chain_u_def empty_u_def)


lemma linked_set_next' [simp]: "p \<notin> set zs \<Longrightarrow> linked (set_next s p v) zs = linked s zs"
  by (rule linked_set_next) (auto dest: in_set_butlastD)

lemma linked_set_prev' [simp]: "p \<notin> set zs \<Longrightarrow> linked (set_prev s p v) zs = linked s zs"
  by (rule linked_set_prev) (cases zs, auto)

lemma hd_notin [simp]: "x \<notin> set zs \<Longrightarrow> zs \<noteq> [] \<Longrightarrow> hd zs \<noteq> x"
  by auto


lemma linked_frame:
  "linked s zs \<Longrightarrow> (\<And>x. x \<in> set (butlast zs) \<Longrightarrow> get_next s' x = get_next s x) \<Longrightarrow>
   (\<And>x. x \<in> set (tl zs) \<Longrightarrow> get_prev s' x = get_prev s x) \<Longrightarrow> linked s' zs"
  by (induction s zs rule: linked.induct) auto

lemma frame_refl: "frame s s N L"
  by (simp add: frame_def)

lemma frame_mono: "frame s s' N L \<Longrightarrow> N \<subseteq> N' \<Longrightarrow> L \<subseteq> L' \<Longrightarrow> frame s s' N' L'"
  by (auto simp: frame_def)

lemma frame_trans: "frame s s' N L \<Longrightarrow> frame s' s'' N L \<Longrightarrow> frame s s'' N L"
  by (auto simp: frame_def)

lemma frame_linked:
  assumes "frame s s' N L" "linked s zs" "set zs \<inter> N = {}"
  shows "linked s' zs"
proof (rule linked_frame[OF assms(2)])
  fix x assume "x \<in> set (butlast zs)"
  then have "x \<notin> N" using assms(3) by (auto dest: in_set_butlastD)
  then show "get_next s' x = get_next s x" using assms(1) by (simp add: frame_def)
next
  fix x assume "x \<in> set (tl zs)"
  then have "x \<in> set zs" by (cases zs) auto
  then have "x \<notin> N" using assms(3) by auto
  then show "get_prev s' x = get_prev s x" using assms(1) by (simp add: frame_def)
qed

lemma frame_chain_u:
  assumes "frame s s' N L" "chain_u s m ys" "set (ys @ [m]) \<inter> N = {}" "m \<notin> L"
  shows "chain_u s' m ys"
proof -
  have "hd (ys @ [m]) \<in> set (ys @ [m])" by (rule hd_in_set) simp
  then have "hd (ys @ [m]) \<notin> N" using assms(3) by blast
  then have "get_prev s' (hd (ys @ [m])) = get_prev s (hd (ys @ [m]))"
    using assms(1) by (simp add: frame_def)
  moreover have "get_first s' m = get_first s m" using assms(1,4) by (simp add: frame_def)
  moreover have "linked s' (ys @ [m])"
    using frame_linked[OF assms(1) _ assms(3)] assms(2) by (simp add: chain_u_def)
  ultimately show ?thesis using assms(2) by (simp add: chain_u_def)
qed

lemma frame_chain_h:
  assumes "frame s s' N L" "chain_h s m ys" "set (ys @ [m]) \<inter> N = {}" "m \<notin> L"
  shows "chain_h s' m ys"
proof -
  have "hd (ys @ [m]) \<in> set (ys @ [m])" by (rule hd_in_set) simp
  then have "hd (ys @ [m]) \<notin> N" using assms(3) by blast
  then have "get_prev s' (hd (ys @ [m])) = get_prev s (hd (ys @ [m]))"
    using assms(1) by (simp add: frame_def)
  moreover have "get_first s' m = get_first s m" using assms(1,4) by (simp add: frame_def)
  moreover have "linked s' (ys @ [m])"
    using frame_linked[OF assms(1) _ assms(3)] assms(2) by (simp add: chain_h_def)
  ultimately show ?thesis using assms(2) by (simp add: chain_h_def)
qed

lemma insert_h_eq: "insert_h = insert_u"
  by (simp add: fun_eq_iff insert_h_def insert_u_def)

lemma erase_h_eq: "erase_h = erase_u"
  by (simp add: fun_eq_iff erase_h_def erase_u_def end_h_def end_u_def)

lemma insert_path:
  assumes d: "distinct (P @ p # R)" and e: "e \<notin> set (P @ p # R)"
    and lk: "linked s (P @ p # R)" and hp: "get_prev s (hd (P @ p # R)) = None"
  shows "\<exists>s'. insert_u s l (Some p) e = Some (s', Some e) \<and> linked s' (P @ e # p # R) \<and>
      distinct (P @ e # p # R) \<and>
      get_prev s' (hd (P @ e # p # R)) = None \<and>
      get_first s' l = (if P = [] then Some e else get_first s l) \<and>
      frame s s' (set (e # P @ p # R)) {l}"
proof (cases P rule: rev_cases)
  case Nil
  with assms show ?thesis
    by (cases R) (auto simp: insert_u_def Let_def frame_def)
next
  case (snoc P' a)
  with assms show ?thesis
    by (simp add: insert_u_def Let_def linked_append frame_def, (cases P'; cases R)) auto
qed

lemma erase_path:
  assumes d: "distinct (P @ x # n # R)" and xl: "x \<noteq> l"
    and lk: "linked s (P @ x # n # R)" and hp: "get_prev s (hd (P @ x # n # R)) = None"
  shows "\<exists>s'. erase_u s l (Some x) = Some (s', Some n) \<and> linked s' (P @ n # R) \<and>
      distinct (P @ n # R) \<and>
      get_prev s' (hd (P @ n # R)) = None \<and>
      get_first s' l = (if P = [] then Some n else get_first s l) \<and>
      frame s s' (set (P @ n # R)) {l}"
proof (cases P rule: rev_cases)
  case Nil
  with assms show ?thesis
    by (cases R) (auto simp: erase_u_def end_u_def Let_def frame_def)
next
  case (snoc P' a)
  with assms show ?thesis
    by (simp add: erase_u_def end_u_def Let_def linked_append frame_def, (cases P'; cases R))
      auto
qed

lemma chain_u_insert:
  assumes c: "chain_u s l (P @ Q)" and e: "e \<notin> set (l # P @ Q)"
  shows "\<exists>s'. insert_u s l (Some (hd (Q @ [l]))) e = Some (s', Some e) \<and> chain_u s' l (P @ e # Q) \<and>
     frame s s' (set (e # P @ Q @ [l])) {l}"
proof -
  obtain p R where pr: "Q @ [l] = p # R" by (cases "Q @ [l]") auto
  have eq: "P @ p # R = (P @ Q) @ [l]" using pr by simp
  have "distinct (P @ p # R)" "e \<notin> set (P @ p # R)" "linked s (P @ p # R)" "get_prev s (hd (P @ p # R)) = None"
    using c e unfolding eq chain_u_def by auto
  from insert_path[OF this, of l] obtain s' where
    s': "insert_u s l (Some p) e = Some (s', Some e)" "linked s' (P @ e # p # R)"
      "get_prev s' (hd (P @ e # p # R)) = None" "get_first s' l = (if P = [] then Some e else get_first s l)"
      "distinct (P @ e # p # R)" "frame s s' (set (e # P @ p # R)) {l}"
    by blast
  have eq': "(P @ e # Q) @ [l] = P @ e # p # R" using pr by simp
  have "chain_u s' l (P @ e # Q)"
    unfolding chain_u_def eq' using s'(2-5) c
    by (cases P) (simp_all add: chain_u_def)
  moreover have "frame s s' (set (e # P @ Q @ [l])) {l}" using s'(6) pr by simp
  ultimately show ?thesis using s'(1) pr by auto
qed

lemma chain_h_insert:
  assumes c: "chain_h s l (P @ Q)" and e: "e \<notin> set (l # P @ Q)"
  shows "\<exists>s'. insert_h s l (Some (hd (Q @ [l]))) e = Some (s', Some e) \<and> chain_h s' l (P @ e # Q) \<and>
     frame s s' (set (e # P @ Q @ [l])) {l}"
proof -
  obtain p R where pr: "Q @ [l] = p # R" by (cases "Q @ [l]") auto
  have eq: "P @ p # R = (P @ Q) @ [l]" using pr by simp
  have "distinct (P @ p # R)" "e \<notin> set (P @ p # R)" "linked s (P @ p # R)" "get_prev s (hd (P @ p # R)) = None"
    using c e unfolding eq chain_h_def by auto
  from insert_path[OF this, of l] obtain s' where
    s': "insert_u s l (Some p) e = Some (s', Some e)" "linked s' (P @ e # p # R)"
      "get_prev s' (hd (P @ e # p # R)) = None" "get_first s' l = (if P = [] then Some e else get_first s l)"
      "distinct (P @ e # p # R)" "frame s s' (set (e # P @ p # R)) {l}"
    by blast
  have eq': "(P @ e # Q) @ [l] = P @ e # p # R" using pr by simp
  have "chain_h s' l (P @ e # Q)"
    unfolding chain_h_def eq' using s'(2-5) c
    by (cases P) (simp_all add: chain_h_def)
  moreover have "frame s s' (set (e # P @ Q @ [l])) {l}" using s'(6) pr by simp
  ultimately show ?thesis using s'(1) pr by (auto simp: insert_h_eq)
qed

lemma erase_chain_path:
  assumes c: "distinct ((P @ x # Q) @ [l])" "linked s ((P @ x # Q) @ [l])" "get_prev s (hd ((P @ x # Q) @ [l])) = None"
  shows "\<exists>s'. erase_u s l (Some x) = Some (s', Some (hd (Q @ [l]))) \<and>
     distinct ((P @ Q) @ [l]) \<and> linked s' ((P @ Q) @ [l]) \<and> get_prev s' (hd ((P @ Q) @ [l])) = None \<and>
     get_first s' l = (if P = [] then Some (hd (Q @ [l])) else get_first s l) \<and>
     frame s s' (set (P @ Q @ [l])) {l}"
proof -
  obtain n R where pr: "Q @ [l] = n # R" by (cases "Q @ [l]") auto
  have eq: "(P @ x # Q) @ [l] = P @ x # n # R" using pr by simp
  have eq': "(P @ Q) @ [l] = P @ n # R" using pr by simp
  have "x \<noteq> l" using c(1) by auto
  from erase_path[OF c(1)[unfolded eq] this c(2)[unfolded eq] c(3)[unfolded eq]]
  show ?thesis unfolding eq' using pr by auto
qed

lemma chain_u_erase:
  assumes c: "chain_u s l (P @ x # Q)"
  shows "\<exists>s'. erase_u s l (Some x) = Some (s', Some (hd (Q @ [l]))) \<and> chain_u s' l (P @ Q) \<and>
     frame s s' (set (P @ Q @ [l])) {l}"
proof -
  from c have "distinct ((P @ x # Q) @ [l])" "linked s ((P @ x # Q) @ [l])" "get_prev s (hd ((P @ x # Q) @ [l])) = None"
    by (simp_all add: chain_u_def)
  from erase_chain_path[OF this] obtain s' where
    s': "erase_u s l (Some x) = Some (s', Some (hd (Q @ [l])))"
     "distinct ((P @ Q) @ [l])" "linked s' ((P @ Q) @ [l])" "get_prev s' (hd ((P @ Q) @ [l])) = None"
     "get_first s' l = (if P = [] then Some (hd (Q @ [l])) else get_first s l)"
     "frame s s' (set (P @ Q @ [l])) {l}" by blast
  have "chain_u s' l (P @ Q)"
    unfolding chain_u_def using s'(2-5) c by (cases P) (simp_all add: chain_u_def)
  with s'(1,6) show ?thesis by blast
qed

lemma chain_h_erase:
  assumes c: "chain_h s l (P @ x # Q)" and ne: "P @ Q \<noteq> []"
  shows "\<exists>s'. erase_h s l (Some x) = Some (s', Some (hd (Q @ [l]))) \<and> chain_h s' l (P @ Q) \<and>
     frame s s' (set (P @ Q @ [l])) {l}"
proof -
  from c have "distinct ((P @ x # Q) @ [l])" "linked s ((P @ x # Q) @ [l])" "get_prev s (hd ((P @ x # Q) @ [l])) = None"
    by (simp_all add: chain_h_def)
  from erase_chain_path[OF this] obtain s' where
    s': "erase_u s l (Some x) = Some (s', Some (hd (Q @ [l])))"
     "distinct ((P @ Q) @ [l])" "linked s' ((P @ Q) @ [l])" "get_prev s' (hd ((P @ Q) @ [l])) = None"
     "get_first s' l = (if P = [] then Some (hd (Q @ [l])) else get_first s l)"
     "frame s s' (set (P @ Q @ [l])) {l}" by blast
  have "chain_h s' l (P @ Q)"
    unfolding chain_h_def using s'(2-5) c ne by (cases P; cases Q) (simp_all add: chain_h_def)
  with s'(1,6) show ?thesis by (auto simp: erase_h_eq)
qed


text \<open>
  Two chains of one store with different \<open>after_last\<close> nodes, neither of which is a
  member of the other chain, have no member in common: from a common member the \<open>next\<close>
  fields would lead to both \<open>after_last\<close> nodes.
\<close>

lemma linked_same_start:
  "linked s (X @ [l]) \<Longrightarrow> linked s (Y @ [d]) \<Longrightarrow> X \<noteq> [] \<Longrightarrow> Y \<noteq> [] \<Longrightarrow> hd X = hd Y \<Longrightarrow>
   l \<notin> set Y \<Longrightarrow> d \<notin> set X \<Longrightarrow> l = d"
proof (induction X arbitrary: Y)
  case Nil
  then show ?case by simp
next
  case (Cons x X)
  then obtain Y' where Y: "Y = x # Y'" by (cases Y) auto
  have nx: "get_next s x = Some (hd (X @ [l]))" using Cons.prems(1) by (cases X) auto
  have ny: "get_next s x = Some (hd (Y' @ [d]))" using Cons.prems(2) Y by (cases Y') auto
  have e: "hd (X @ [l]) = hd (Y' @ [d])" using nx ny by simp
  show ?case
  proof (cases X)
    case Nil
    then show ?thesis using e Cons.prems(6) Y by (cases Y') auto
  next
    case (Cons a X')
    note X = Cons
    show ?thesis
    proof (cases Y')
      case Nil
      then show ?thesis using e X Cons.prems(7) by auto
    next
      case (Cons b Y'')
      have "linked s (X @ [l])" using Cons.prems(1) X by simp
      moreover have "linked s (Y' @ [d])" using Cons.prems(2) Y Cons by simp
      moreover have "hd X = hd Y'" using e X Cons by simp
      ultimately show ?thesis
        using Cons.IH[of Y'] X Cons Cons.prems(6,7) Y by auto
    qed
  qed
qed

lemma linked_disjoint:
  assumes "linked s (xs @ [l])" "linked s (ys @ [d])" "l \<noteq> d" "l \<notin> set ys" "d \<notin> set xs"
  shows "set xs \<inter> set ys = {}"
proof (rule ccontr)
  assume "set xs \<inter> set ys \<noteq> {}"
  then obtain x where "x \<in> set xs" "x \<in> set ys" by auto
  then obtain X0 X1 Y0 Y1 where xs: "xs = X0 @ x # X1" and ys: "ys = Y0 @ x # Y1"
    by (meson split_list)
  have 1: "linked s ((x # X1) @ [l])" using assms(1) xs by (simp add: linked_append)
  have 2: "linked s ((x # Y1) @ [d])" using assms(2) ys by (simp add: linked_append)
  from linked_same_start[OF 1 2] assms(3-5) xs ys show False by auto
qed

lemma chains_distinct_h:
  assumes "chain_h s l xs" "chain_h s d ys" "l \<noteq> d" "l \<notin> set ys" "d \<notin> set xs"
  shows "distinct ((ys @ [d]) @ (xs @ [l]))"
  using assms linked_disjoint[of s xs l ys d] by (auto simp: chain_h_def)

lemma chains_distinct_u:
  assumes "chain_u s l xs" "chain_u s d ys" "l \<noteq> d" "l \<notin> set ys" "d \<notin> set xs"
  shows "distinct ((ys @ [d]) @ (xs @ [l]))"
  using assms linked_disjoint[of s xs l ys d] by (auto simp: chain_u_def)


section \<open>Insertion and removal at the ends\<close>

lemma last_in_set_iff [simp]: "(last zs \<in> set zs) = (zs \<noteq> [])"
  by (cases zs rule: rev_cases) auto

lemma hd_in_set_iff [simp]: "(hd zs \<in> set zs) = (zs \<noteq> [])"
  by (cases zs) auto


lemma chain_u_push_back:
  assumes c: "chain_u s l xs" and e: "e \<notin> set (l # xs)"
  shows "\<exists>s'. push_back_u s l e = Some s' \<and> chain_u s' l (xs @ [e]) \<and> frame s s' (set (e # xs @ [l])) {l}"
  using chain_u_insert[of s l xs "[]" e] c e by (auto simp: push_back_u_def end_u_def)

lemma chain_u_push_front:
  assumes c: "chain_u s l xs" and e: "e \<notin> set (l # xs)"
  shows "\<exists>s'. push_front_u s l e = Some s' \<and> chain_u s' l (e # xs) \<and> frame s s' (set (e # xs @ [l])) {l}"
  using chain_u_insert[of s l "[]" xs e] c e by (auto simp: push_front_u_def begin_u_def chain_u_def)

lemma chain_u_pop_front:
  assumes c: "chain_u s l (x # xs)"
  shows "\<exists>s'. pop_front_u s l = Some s' \<and> chain_u s' l xs \<and> frame s s' (set (xs @ [l])) {l}"
  using chain_u_erase[of s l "[]" x xs] c by (auto simp: pop_front_u_def begin_u_def chain_u_def)

lemma chain_u_last: "chain_u s l (xs @ [x]) \<Longrightarrow> get_prev s l = Some x"
  by (auto simp: chain_u_def linked_append)

lemma chain_h_last: "chain_h s l (xs @ [x]) \<Longrightarrow> get_prev s l = Some x"
  by (auto simp: chain_h_def linked_append)

lemma chain_u_pop_back:
  assumes c: "chain_u s l (xs @ [x])"
  shows "\<exists>s'. pop_back_u s l = Some s' \<and> chain_u s' l xs \<and> frame s s' (set (xs @ [l])) {l}"
  using chain_u_erase[of s l xs x "[]"] c chain_u_last[OF c] by (auto simp: pop_back_u_def)

lemma chain_h_push_back:
  assumes c: "chain_h s l xs" and e: "e \<notin> set (l # xs)" and p: "get_prev s e = None"
  shows "chain_h (push_back_h s l e) l (xs @ [e]) \<and> frame s (push_back_h s l e) (set (e # xs @ [l])) {l}"
proof (cases xs rule: rev_cases)
  case Nil
  with c have "get_prev s l = None" "get_first s l = None" by (auto simp: chain_h_def)
  then have eq: "push_back_h s l e = set_first (set_next (set_prev s l (Some e)) e (Some l)) l (Some e)"
    by (simp add: push_back_h_def Let_def)
  show ?thesis unfolding eq using Nil e p by (auto simp: chain_h_def frame_def)
next
  case (snoc ys y)
  with c obtain f where "get_prev s l = Some y" "get_first s l = Some f"
    by (auto simp: chain_h_def linked_append)
  then have eq: "push_back_h s l e = set_next (set_prev (set_prev (set_next s y (Some e)) e (Some y)) l (Some e)) e (Some l)"
    by (simp add: push_back_h_def Let_def)
  show ?thesis unfolding eq using c snoc e
    by (auto simp: chain_h_def frame_def linked_append hd_append)
qed

lemma chain_h_pop_back:
  assumes c: "chain_h s l (xs @ [x])"
  shows "chain_h (pop_back_h s l) l xs \<and> frame s (pop_back_h s l) (set (xs @ [l])) {l}"
proof (cases xs rule: rev_cases)
  case Nil
  with c have "get_prev s l = Some x" "get_prev s x = None" by (auto simp: chain_h_def)
  then have "pop_back_h s l = clear_h s l" by (simp add: pop_back_h_def)
  then show ?thesis using Nil by (auto simp: chain_h_def clear_h_def frame_def)
next
  case (snoc ys y)
  with c have px: "get_prev s l = Some x" "get_prev s x = Some y"
    by (auto simp: chain_h_def linked_append)
  then have eq: "pop_back_h s l = set_prev (set_next s y (Some l)) l (Some y)"
    by (simp add: pop_back_h_def Let_def)
  show ?thesis unfolding eq using c snoc
    by (auto simp: chain_h_def frame_def linked_append hd_append)
qed

lemma chain_h_push_front:
  assumes c: "chain_h s l (x # xs)" and e: "e \<notin> set (l # x # xs)"
  shows "chain_h (push_front_h s l e) l (e # x # xs) \<and> frame s (push_front_h s l e) (set (e # x # xs @ [l])) {l}"
proof -
  obtain ys y where ys: "x # xs = ys @ [y]" by (cases "x # xs" rule: rev_cases) auto
  with c have "chain_h s l (ys @ [y])" by simp
  then have pl: "get_prev s l = Some y" by (rule chain_h_last)
  from c have f: "get_first s l = Some x" by (simp add: chain_h_def)
  have el: "e \<noteq> l" using e by simp
  have eq: "push_front_h s l e = set_first (set_next (set_prev (set_prev s e None) x (Some e)) e (Some x)) l (Some e)"
    using pl f el by (simp add: push_front_h_def Let_def)
  show ?thesis unfolding eq using c e
    by (auto simp: chain_h_def frame_def)
qed

lemma chain_h_pop_front:
  assumes c: "chain_h s l (x # y # xs)"
  shows "chain_h (pop_front_h s l) l (y # xs) \<and> frame s (pop_front_h s l) (set (y # xs @ [l])) {l}"
  using assms by (auto simp: chain_h_def pop_front_h_def Let_def frame_def linked_append)

lemma chain_h_list: "chain_h (list_h s l) l []"
  by (simp add: chain_h_def list_h_def)

lemma chain_u_list: "chain_u (list_u s l) l []"
  by (simp add: chain_u_def list_u_def)


section \<open>\<open>splice\<close>: the rewiring\<close>

lemma splice_u_effect:
  assumes "f \<noteq> t" "f \<noteq> a" "get_prev s t = Some z"
  shows "\<exists>s'. splice_u s l (Some a) d (Some f) (Some t) = Some s' \<and> rewired s s' a f t z \<and>
    (\<forall>m. get_first s' m =
       (if m = l \<and> get_prev s a = None then Some f
        else if m = d \<and> get_prev s f = None then Some t else get_first s m))"
  using assms
  by (cases "get_prev s f"; cases "get_prev s a")
    (auto simp: splice_u_def end_u_def Let_def rewired_def)

lemma splice_h_effect:
  assumes "f \<noteq> t" "f \<noteq> a" "get_prev s t = Some z"
  shows "\<exists>s'. splice_h s l (Some a) d (Some f) (Some t) = Some s' \<and> rewired s s' a f t z \<and>
    (\<forall>m. get_first s' m =
       (if m = l \<and> get_prev s a = None then Some f
        else if m = d \<and> get_prev s f = None then (if t \<noteq> d then Some t else None)
        else get_first s m))"
  using assms
  by (cases "get_prev s f"; cases "get_prev s a")
    (auto simp: splice_h_def end_h_def Let_def rewired_def)

lemma prev_in_path:
  "linked s (A @ y # B) \<Longrightarrow> get_prev s (hd (A @ y # B)) = None \<Longrightarrow> get_prev s y = lastp A"
  by (cases A rule: rev_cases) (auto simp: lastp_def linked_append)

lemma lastp_Some [simp]: "(lastp zs = Some x) = (zs \<noteq> [] \<and> last zs = x)"
  by (auto simp: lastp_def)

lemma lastp_None [simp]: "(lastp zs = None) = (zs = [])"
  by (auto simp: lastp_def)

lemma distinct_last_butlast: "distinct zs \<Longrightarrow> last zs \<notin> set (butlast zs)"
  by (cases zs rule: rev_cases) auto

lemma distinct_hd_tl': "distinct zs \<Longrightarrow> hd zs \<notin> set (tl zs)"
  by (cases zs) auto

lemma rewired_seg:
  assumes "rewired s s' a f t z" "linked s zs" "distinct zs"
    and "\<And>x. x \<in> set zs \<Longrightarrow> x \<noteq> last zs \<Longrightarrow>
           x \<noteq> z \<and> get_prev s a \<noteq> Some x \<and> get_prev s f \<noteq> Some x"
    and "\<And>x. x \<in> set zs \<Longrightarrow> x \<noteq> hd zs \<Longrightarrow> x \<noteq> f \<and> x \<noteq> t \<and> x \<noteq> a"
  shows "linked s' zs"
  using assms(2)
proof (rule linked_frame)
  fix x assume x: "x \<in> set (butlast zs)"
  then have "x \<in> set zs" "x \<noteq> last zs"
    using distinct_last_butlast[OF assms(3)] by (auto dest: in_set_butlastD)
  from assms(4)[OF this] show "get_next s' x = get_next s x"
    using assms(1) by (simp add: rewired_def)
next
  fix x assume "x \<in> set (tl zs)"
  then have "x \<in> set zs" "x \<noteq> hd zs"
    using distinct_hd_tl'[OF assms(3)] by (cases zs, auto)+
  from assms(5)[OF this] show "get_prev s' x = get_prev s x"
    using assms(1) by (simp add: rewired_def)
qed

lemma last_disj: "A \<noteq> [] \<Longrightarrow> set A \<inter> S = {} \<Longrightarrow> last A \<notin> S"
  using last_in_set[of A] by blast

lemma hd_disj: "A \<noteq> [] \<Longrightarrow> set A \<inter> S = {} \<Longrightarrow> hd A \<notin> S"
  using hd_in_set[of A] by blast

lemma in_tl: "x \<in> set (tl zs) \<Longrightarrow> x \<in> set zs"
  by (cases zs) auto

lemma rewired_two:
  assumes rw: "rewired s s' a f t z"
    and d: "distinct (A @ M @ t # C @ P @ a # R)" and m: "M \<noteq> []" "f = hd M" "z = last M"
    and lk1: "linked s (A @ M @ t # C)" and lk2: "linked s (P @ a # R)"
    and h1: "get_prev s (hd (A @ M @ t # C)) = None" and h2: "get_prev s (hd (P @ a # R)) = None"
  shows "linked s' (A @ t # C) \<and> linked s' (P @ M @ a # R) \<and>
     get_prev s' (hd (A @ t # C)) = None \<and> get_prev s' (hd (P @ M @ a # R)) = None \<and>
     (\<forall>y. y \<notin> set (A @ M @ t # C @ P @ a # R) \<longrightarrow> get_prev s' y = get_prev s y \<and> get_next s' y = get_next s y)"
proof -
  have pf: "get_prev s f = lastp A"
    using prev_in_path[of s A f "tl M @ t # C"] lk1 h1 m by (cases M) auto
  have pa: "get_prev s a = lastp P" using prev_in_path[OF lk2 h2] .
  have dA: "set A \<inter> set (M @ t # C @ P @ a # R) = {}"
    and dP: "set P \<inter> set (A @ M @ t # C @ a # R) = {}" using d by auto
  have fM: "f \<in> set M" "z \<in> set M"
    "A \<noteq> [] \<Longrightarrow> last A \<notin> set (M @ t # C @ P @ a # R)"
    "A \<noteq> [] \<Longrightarrow> hd A \<notin> set (M @ t # C @ P @ a # R)"
    "P \<noteq> [] \<Longrightarrow> last P \<notin> set (A @ M @ t # C @ a # R)"
    "P \<noteq> [] \<Longrightarrow> hd P \<notin> set (A @ M @ t # C @ a # R)"
    using m last_disj[OF _ dA] hd_disj[OF _ dA] last_disj[OF _ dP] hd_disj[OF _ dP] by simp_all
  have lA: "linked s A" and lM: "linked s M" and lC: "linked s (t # C)"
    and lP: "linked s P" and lR: "linked s (a # R)"
    using lk1 lk2 by (auto simp: linked_append)
  have A': "linked s' A"
    by (rule rewired_seg[OF rw lA]) (use d fM pf pa in auto)
  have C': "linked s' (t # C)"
    by (rule rewired_seg[OF rw lC]) (use d fM pf pa in auto)
  have P': "linked s' P"
    by (rule rewired_seg[OF rw lP]) (use d fM pf pa in auto)
  have M': "linked s' M"
    by (rule rewired_seg[OF rw lM]) (use d fM pf pa m in auto)
  have R': "linked s' (a # R)"
    by (rule rewired_seg[OF rw lR]) (use d fM pf pa in auto)
  have nz: "get_next s' z = Some a" using rw by (simp add: rewired_def)
  have pa': "get_prev s' a = Some z" using rw d fM by (auto simp: rewired_def)
  have pt': "get_prev s' t = lastp A" using rw d fM pf by (auto simp: rewired_def)
  have pf': "get_prev s' f = lastp P" using rw pa by (auto simp: rewired_def)
  have nA: "A \<noteq> [] \<Longrightarrow> get_next s' (last A) = Some t"
    using rw d fM pf pa by (auto simp: rewired_def)
  have nP: "P \<noteq> [] \<Longrightarrow> get_next s' (last P) = Some f"
    using rw d fM pf pa by (auto simp: rewired_def)
  have hA: "A \<noteq> [] \<Longrightarrow> get_prev s' (hd A) = None"
    using rw d fM h1 by (auto simp: rewired_def hd_append)
  have hP: "P \<noteq> [] \<Longrightarrow> get_prev s' (hd P) = None"
    using rw d fM h2 by (auto simp: rewired_def hd_append)
  have 1: "linked s' (A @ t # C)"
    using A' C' nA pt' by (auto simp: linked_append)
  have 2: "linked s' (P @ M @ a # R)"
    using P' M' R' nP pf' nz pa' m by (auto simp: linked_append hd_append)
  have 3: "get_prev s' (hd (A @ t # C)) = None"
    using hA pt' by (auto simp: hd_append)
  have 4: "get_prev s' (hd (P @ M @ a # R)) = None"
    using hP pf' m by (auto simp: hd_append)
  have 5: "\<forall>y. y \<notin> set (A @ M @ t # C @ P @ a # R) \<longrightarrow> get_prev s' y = get_prev s y \<and> get_next s' y = get_next s y"
    using rw fM pf pa by (auto simp: rewired_def)
  from 1 2 3 4 5 show ?thesis by blast
qed


lemma linked_Cons_append:
  "linked s (y # X @ Y) =
     (linked s (y # X) \<and> linked s Y \<and>
      (Y \<noteq> [] \<longrightarrow> get_next s (last (y # X)) = Some (hd Y) \<and> get_prev s (hd Y) = Some (last (y # X))))"
  using linked_append[of s "y # X" Y] by simp

lemma rewired_after:
  assumes rw: "rewired s s' a f t z"
    and d: "distinct (A @ M @ t # C @ a # R)" and m: "M \<noteq> []" "f = hd M" "z = last M"
    and lk: "linked s (A @ M @ t # C @ a # R)"
    and h: "get_prev s (hd (A @ M @ t # C @ a # R)) = None"
  shows "linked s' (A @ t # C @ M @ a # R) \<and>
     get_prev s' (hd (A @ t # C @ M @ a # R)) = None \<and>
     (\<forall>y. y \<notin> set (A @ M @ t # C @ a # R) \<longrightarrow> get_prev s' y = get_prev s y \<and> get_next s' y = get_next s y)"
proof -
  define c where "c = last (t # C)"
  have pf: "get_prev s f = lastp A"
    using prev_in_path[of s A f "tl M @ t # C @ a # R"] lk h m by (cases M) auto
  have pa: "get_prev s a = Some c"
    using lk unfolding c_def by (auto simp: linked_append linked_Cons_append)
  have dA: "set A \<inter> set (M @ t # C @ a # R) = {}" using d by auto
  have cin: "c \<in> set (t # C)" unfolding c_def by (rule last_in_set) simp
  have fM: "f \<in> set M" "z \<in> set M"
    "A \<noteq> [] \<Longrightarrow> last A \<notin> set (M @ t # C @ a # R)"
    "A \<noteq> [] \<Longrightarrow> hd A \<notin> set (M @ t # C @ a # R)"
    "c \<notin> set A" "c \<notin> set M" "c \<noteq> a" "c \<notin> set R"
    using m last_disj[OF _ dA] hd_disj[OF _ dA] cin d by auto
  have lA: "linked s A" and lM: "linked s M" and lC: "linked s (t # C)" and lR: "linked s (a # R)"
    using lk by (auto simp: linked_append linked_Cons_append)
  have A': "linked s' A"
    by (rule rewired_seg[OF rw lA]) (use d fM pf pa in auto)
  have C': "linked s' (t # C)"
    by (rule rewired_seg[OF rw lC]) (use d fM(1-4) pf pa c_def in auto)
  have M': "linked s' M"
    by (rule rewired_seg[OF rw lM]) (use d fM pf pa m in auto)
  have R': "linked s' (a # R)"
    by (rule rewired_seg[OF rw lR]) (use d fM pf pa in auto)
  have nz: "get_next s' z = Some a" using rw by (simp add: rewired_def)
  have pa': "get_prev s' a = Some z" using rw d fM by (auto simp: rewired_def)
  have pt': "get_prev s' t = lastp A" using rw d fM pf by (auto simp: rewired_def)
  have pf': "get_prev s' f = Some c" using rw pa by (auto simp: rewired_def)
  have nA: "A \<noteq> [] \<Longrightarrow> get_next s' (last A) = Some t"
    using rw d fM pf pa by (auto simp: rewired_def)
  have nc: "get_next s' c = Some f"
    using rw d fM pf pa by (auto simp: rewired_def)
  have hA: "A \<noteq> [] \<Longrightarrow> get_prev s' (hd A) = None"
    using rw d fM h by (auto simp: rewired_def hd_append)
  have 1: "linked s' (A @ t # C @ M @ a # R)"
    using A' C' M' R' nA pt' nc pf' nz pa' m c_def
    by (auto simp: linked_append linked_Cons_append hd_append)
  have 3: "get_prev s' (hd (A @ t # C @ M @ a # R)) = None"
    using hA pt' by (auto simp: hd_append)
  have 5: "\<forall>y. y \<notin> set (A @ M @ t # C @ a # R) \<longrightarrow> get_prev s' y = get_prev s y \<and> get_next s' y = get_next s y"
    using rw fM(1-4) cin pf pa by (auto simp: rewired_def)
  from 1 3 5 show ?thesis by simp
qed

lemma rewired_before:
  assumes rw: "rewired s s' a f t z"
    and d: "distinct (P @ a # B @ M @ t # C)" and m: "M \<noteq> []" "f = hd M" "z = last M"
    and lk: "linked s (P @ a # B @ M @ t # C)"
    and h: "get_prev s (hd (P @ a # B @ M @ t # C)) = None"
  shows "linked s' (P @ M @ a # B @ t # C) \<and>
     get_prev s' (hd (P @ M @ a # B @ t # C)) = None \<and>
     (\<forall>y. y \<notin> set (P @ a # B @ M @ t # C) \<longrightarrow> get_prev s' y = get_prev s y \<and> get_next s' y = get_next s y)"
proof -
  define c where "c = last (a # B)"
  have pa: "get_prev s a = lastp P"
    using prev_in_path[OF lk h] .
  have lk': "linked s ((P @ a # B) @ M @ t # C)" using lk by simp
  have pf: "get_prev s f = Some c"
    using lk' m unfolding c_def linked_append[of s "P @ a # B"] by (auto simp: hd_append)
  have dP: "set P \<inter> set (a # B @ M @ t # C) = {}" using d by auto
  have cin: "c \<in> set (a # B)" unfolding c_def by (rule last_in_set) simp
  have fM: "f \<in> set M" "z \<in> set M"
    "P \<noteq> [] \<Longrightarrow> last P \<notin> set (a # B @ M @ t # C)"
    "P \<noteq> [] \<Longrightarrow> hd P \<notin> set (a # B @ M @ t # C)"
    "c \<notin> set P" "c \<notin> set M" "c \<noteq> t" "c \<notin> set C"
    using m last_disj[OF _ dP] hd_disj[OF _ dP] cin d by auto
  have lP: "linked s P" and lM: "linked s M" and lC: "linked s (t # C)" and lB: "linked s (a # B)"
    using lk by (auto simp: linked_append linked_Cons_append)
  have P': "linked s' P"
    by (rule rewired_seg[OF rw lP]) (use d fM pf pa in auto)
  have C': "linked s' (t # C)"
    by (rule rewired_seg[OF rw lC]) (use d fM pf pa in auto)
  have M': "linked s' M"
    by (rule rewired_seg[OF rw lM]) (use d fM pf pa m in auto)
  have B': "linked s' (a # B)"
    by (rule rewired_seg[OF rw lB]) (use d fM(1-4) pf pa c_def in auto)
  have nz: "get_next s' z = Some a" using rw by (simp add: rewired_def)
  have pa': "get_prev s' a = Some z" using rw d fM by (auto simp: rewired_def)
  have pt': "get_prev s' t = Some c" using rw d fM pf by (auto simp: rewired_def)
  have pf': "get_prev s' f = lastp P" using rw pa by (auto simp: rewired_def)
  have nP: "P \<noteq> [] \<Longrightarrow> get_next s' (last P) = Some f"
    using rw d fM pf pa by (auto simp: rewired_def)
  have nc: "get_next s' c = Some t"
    using rw d fM pf pa by (auto simp: rewired_def)
  have hP: "P \<noteq> [] \<Longrightarrow> get_prev s' (hd P) = None"
    using rw d fM h by (auto simp: rewired_def hd_append)
  have 1: "linked s' (P @ M @ a # B @ t # C)"
    using P' C' M' B' nP pt' nc pf' nz pa' m c_def
    by (auto simp: linked_append linked_Cons_append hd_append)
  have 3: "get_prev s' (hd (P @ M @ a # B @ t # C)) = None"
    using hP pf' m by (auto simp: hd_append)
  have 5: "\<forall>y. y \<notin> set (P @ a # B @ M @ t # C) \<longrightarrow> get_prev s' y = get_prev s y \<and> get_next s' y = get_next s y"
    using rw fM(1-4) cin pf pa by (auto simp: rewired_def)
  from 1 3 5 show ?thesis by simp
qed


section \<open>\<open>splice\<close> on chains\<close>

lemma chain_u_splice:
  assumes cl: "chain_u s l (P @ Q)" and cd: "chain_u s d (A @ M @ C)" and m: "M \<noteq> []"
    and dj: "distinct ((A @ M @ C @ [d]) @ (P @ Q @ [l]))"
  shows "\<exists>s'. splice_u s l (Some (hd (Q @ [l]))) d (Some (hd M)) (Some (hd (C @ [d]))) = Some s' \<and>
     chain_u s' l (P @ M @ Q) \<and> chain_u s' d (A @ C) \<and>
     frame s s' (set (A @ M @ C @ [d] @ P @ Q @ [l])) {l, d}"
proof -
  obtain a R where aR: "Q @ [l] = a # R" by (cases "Q @ [l]") auto
  obtain t C' where tC: "C @ [d] = t # C'" by (cases "C @ [d]") auto
  define f where "f = hd M"
  define z where "z = last M"
  have e1: "(A @ M @ C) @ [d] = A @ M @ t # C'" and e2: "(P @ Q) @ [l] = P @ a # R"
    and e3: "(A @ C) @ [d] = A @ t # C'" and e4: "(P @ M @ Q) @ [l] = P @ M @ a # R"
    using aR tC by simp_all
  have d: "distinct (A @ M @ t # C' @ P @ a # R)" using dj aR tC by simp
  have lk1: "linked s (A @ M @ t # C')" and h1: "get_prev s (hd (A @ M @ t # C')) = None"
    using cd unfolding chain_u_def e1 by simp_all
  have lk2: "linked s (P @ a # R)" and h2: "get_prev s (hd (P @ a # R)) = None"
    using cl unfolding chain_u_def e2 by simp_all
  have fM: "f \<in> set M" using m f_def by simp
  have ft: "f \<noteq> t" "f \<noteq> a" using d fM by auto
  have pt: "get_prev s t = Some z"
    using lk1 m unfolding z_def by (auto simp: linked_append)
  have pf: "get_prev s f = lastp A"
    using prev_in_path[of s A f "tl M @ t # C'"] lk1 h1 m f_def by (cases M) auto
  have pa: "get_prev s a = lastp P" using prev_in_path[OF lk2 h2] .
  have ld: "l \<noteq> d" using dj by auto
  from splice_u_effect[OF ft pt, of l d] obtain s' where
    sp: "splice_u s l (Some a) d (Some f) (Some t) = Some s'" and rw: "rewired s s' a f t z"
    and fi: "\<And>m. get_first s' m =
       (if m = l \<and> get_prev s a = None then Some f
        else if m = d \<and> get_prev s f = None then Some t else get_first s m)"
    by blast
  from rewired_two[OF rw d m f_def z_def lk1 lk2 h1 h2]
  have r: "linked s' (A @ t # C')" "linked s' (P @ M @ a # R)"
    "get_prev s' (hd (A @ t # C')) = None" "get_prev s' (hd (P @ M @ a # R)) = None"
    "\<forall>y. y \<notin> set (A @ M @ t # C' @ P @ a # R) \<longrightarrow> get_prev s' y = get_prev s y \<and> get_next s' y = get_next s y"
    by blast+
  have fl: "get_first s' l = Some (hd (P @ M @ a # R))"
    using fi[of l] pa ld cl m f_def unfolding chain_u_def e2 by (auto simp: hd_append)
  have fd: "get_first s' d = Some (hd (A @ t # C'))"
    using fi[of d] pf ld cd m unfolding chain_u_def e1 by (auto simp: hd_append)
  have 1: "chain_u s' l (P @ M @ Q)"
    unfolding chain_u_def e4 using r(2,4) fl d by auto
  have 2: "chain_u s' d (A @ C)"
    unfolding chain_u_def e3 using r(1,3) fd d by auto
  have "A @ M @ (C @ [d]) @ P @ (Q @ [l]) = A @ M @ (t # C') @ P @ (a # R)"
    by (simp only: aR tC)
  then have se: "set (A @ M @ C @ [d] @ P @ Q @ [l]) = set (A @ M @ t # C' @ P @ a # R)"
    by simp
  have 3: "frame s s' (set (A @ M @ C @ [d] @ P @ Q @ [l])) {l, d}"
    unfolding se frame_def using r(5) fi by simp
  from sp 1 2 3 show ?thesis unfolding f_def using aR tC by auto
qed


lemma chain_h_splice:
  assumes cl: "chain_h s l (P @ Q)" and cd: "chain_h s d (A @ M @ C)" and m: "M \<noteq> []"
    and dj: "distinct ((A @ M @ C @ [d]) @ (P @ Q @ [l]))"
  shows "\<exists>s'. splice_h s l (Some (hd (Q @ [l]))) d (Some (hd M)) (Some (hd (C @ [d]))) = Some s' \<and>
     chain_h s' l (P @ M @ Q) \<and> chain_h s' d (A @ C) \<and>
     frame s s' (set (A @ M @ C @ [d] @ P @ Q @ [l])) {l, d}"
proof -
  obtain a R where aR: "Q @ [l] = a # R" by (cases "Q @ [l]") auto
  obtain t C' where tC: "C @ [d] = t # C'" by (cases "C @ [d]") auto
  define f where "f = hd M"
  define z where "z = last M"
  have e1: "(A @ M @ C) @ [d] = A @ M @ t # C'" and e2: "(P @ Q) @ [l] = P @ a # R"
    and e3: "(A @ C) @ [d] = A @ t # C'" and e4: "(P @ M @ Q) @ [l] = P @ M @ a # R"
    using aR tC by simp_all
  have d: "distinct (A @ M @ t # C' @ P @ a # R)" using dj aR tC by simp
  have lk1: "linked s (A @ M @ t # C')" and h1: "get_prev s (hd (A @ M @ t # C')) = None"
    using cd unfolding chain_h_def e1 by simp_all
  have lk2: "linked s (P @ a # R)" and h2: "get_prev s (hd (P @ a # R)) = None"
    using cl unfolding chain_h_def e2 by simp_all
  have fM: "f \<in> set M" using m f_def by simp
  have ft: "f \<noteq> t" "f \<noteq> a" using d fM by auto
  have pt: "get_prev s t = Some z"
    using lk1 m unfolding z_def by (auto simp: linked_append)
  have pf: "get_prev s f = lastp A"
    using prev_in_path[of s A f "tl M @ t # C'"] lk1 h1 m f_def by (cases M) auto
  have pa: "get_prev s a = lastp P" using prev_in_path[OF lk2 h2] .
  have ld: "l \<noteq> d" using dj by auto
  from splice_h_effect[OF ft pt, of l d] obtain s' where
    sp: "splice_h s l (Some a) d (Some f) (Some t) = Some s'" and rw: "rewired s s' a f t z"
    and fi: "\<And>m. get_first s' m =
       (if m = l \<and> get_prev s a = None then Some f
        else if m = d \<and> get_prev s f = None then (if t \<noteq> d then Some t else None)
        else get_first s m)"
    by blast
  from rewired_two[OF rw d m f_def z_def lk1 lk2 h1 h2]
  have r: "linked s' (A @ t # C')" "linked s' (P @ M @ a # R)"
    "get_prev s' (hd (A @ t # C')) = None" "get_prev s' (hd (P @ M @ a # R)) = None"
    "\<forall>y. y \<notin> set (A @ M @ t # C' @ P @ a # R) \<longrightarrow> get_prev s' y = get_prev s y \<and> get_next s' y = get_next s y"
    by blast+
  have fl: "get_first s' l = Some (hd (P @ M @ Q))"
    using fi[of l] pa ld cl m f_def unfolding chain_h_def by (auto simp: hd_append)
  have td: "(t = d) = (C = [])" using tC dj by (cases C) auto
  have tC2: "C \<noteq> [] \<Longrightarrow> t = hd C" using tC by (cases C) auto
  have fd: "get_first s' d = (if A @ C = [] then None else Some (hd (A @ C)))"
    using fi[of d] pf ld cd m td tC2 unfolding chain_h_def by (auto simp: hd_append)
  have 1: "chain_h s' l (P @ M @ Q)"
    using r(2,4) fl d m unfolding chain_h_def e4 by auto
  have 2: "chain_h s' d (A @ C)"
    using r(1,3) fd d unfolding chain_h_def e3 by auto
  have "A @ M @ (C @ [d]) @ P @ (Q @ [l]) = A @ M @ (t # C') @ P @ (a # R)"
    by (simp only: aR tC)
  then have se: "set (A @ M @ C @ [d] @ P @ Q @ [l]) = set (A @ M @ t # C' @ P @ a # R)"
    by simp
  have 3: "frame s s' (set (A @ M @ C @ [d] @ P @ Q @ [l])) {l, d}"
    unfolding se frame_def using r(5) fi by simp
  from sp 1 2 3 show ?thesis unfolding f_def using aR tC by auto
qed

lemma chain_u_splice_after:
  assumes c: "chain_u s l (A @ M @ C @ Q)" and m: "M \<noteq> []" and cn: "C \<noteq> []"
  shows "\<exists>s'. splice_u s l (Some (hd (Q @ [l]))) l (Some (hd M)) (Some (hd C)) = Some s' \<and>
     chain_u s' l (A @ C @ M @ Q) \<and> frame s s' (set (A @ M @ C @ Q @ [l])) {l}"
proof -
  obtain a R where aR: "Q @ [l] = a # R" by (cases "Q @ [l]") auto
  obtain t C' where tC: "C = t # C'" using cn by (cases C) auto
  define f where "f = hd M"
  define z where "z = last M"
  have e1: "(A @ M @ C @ Q) @ [l] = A @ M @ t # C' @ a # R"
    and e2: "(A @ C @ M @ Q) @ [l] = A @ t # C' @ M @ a # R"
    using aR tC by simp_all
  have d: "distinct (A @ M @ t # C' @ a # R)"
    and lk: "linked s (A @ M @ t # C' @ a # R)"
    and h: "get_prev s (hd (A @ M @ t # C' @ a # R)) = None"
    and f0: "get_first s l = Some (hd (A @ M @ t # C' @ a # R))"
    using c unfolding chain_u_def e1 by simp_all
  have fM: "f \<in> set M" using m f_def by simp
  have ft: "f \<noteq> t" "f \<noteq> a" using d fM by auto
  have pt: "get_prev s t = Some z"
    using lk m unfolding z_def by (auto simp: linked_append)
  have pf: "get_prev s f = lastp A"
    using prev_in_path[of s A f "tl M @ t # C' @ a # R"] lk h m f_def by (cases M) auto
  have pa: "get_prev s a \<noteq> None"
    using lk by (auto simp: linked_append linked_Cons_append)
  from splice_u_effect[OF ft pt, of l l] obtain s' where
    sp: "splice_u s l (Some a) l (Some f) (Some t) = Some s'" and rw: "rewired s s' a f t z"
    and fi: "\<And>m. get_first s' m =
       (if m = l \<and> get_prev s a = None then Some f
        else if m = l \<and> get_prev s f = None then Some t else get_first s m)"
    by blast
  from rewired_after[OF rw d m f_def z_def lk h]
  have r: "linked s' (A @ t # C' @ M @ a # R)"
    "get_prev s' (hd (A @ t # C' @ M @ a # R)) = None"
    "\<forall>y. y \<notin> set (A @ M @ t # C' @ a # R) \<longrightarrow> get_prev s' y = get_prev s y \<and> get_next s' y = get_next s y"
    by blast+
  have fl: "get_first s' l = Some (hd (A @ t # C' @ M @ a # R))"
    using fi[of l] pa pf f0 by (auto simp: hd_append)
  have 1: "chain_u s' l (A @ C @ M @ Q)"
    unfolding chain_u_def e2 using r(1,2) fl d by auto
  have se: "set (A @ M @ C @ Q @ [l]) = set (A @ M @ t # C' @ a # R)"
    using e1 by (metis append_assoc)
  have 3: "frame s s' (set (A @ M @ C @ Q @ [l])) {l}"
    unfolding se frame_def using r(3) fi by simp
  from sp 1 3 show ?thesis unfolding f_def using aR tC by auto
qed

lemma chain_h_splice_after:
  assumes c: "chain_h s l (A @ M @ C @ Q)" and m: "M \<noteq> []" and cn: "C \<noteq> []"
  shows "\<exists>s'. splice_h s l (Some (hd (Q @ [l]))) l (Some (hd M)) (Some (hd C)) = Some s' \<and>
     chain_h s' l (A @ C @ M @ Q) \<and> frame s s' (set (A @ M @ C @ Q @ [l])) {l}"
proof -
  obtain a R where aR: "Q @ [l] = a # R" by (cases "Q @ [l]") auto
  obtain t C' where tC: "C = t # C'" using cn by (cases C) auto
  define f where "f = hd M"
  define z where "z = last M"
  have e1: "(A @ M @ C @ Q) @ [l] = A @ M @ t # C' @ a # R"
    and e2: "(A @ C @ M @ Q) @ [l] = A @ t # C' @ M @ a # R"
    using aR tC by simp_all
  have d: "distinct (A @ M @ t # C' @ a # R)"
    and lk: "linked s (A @ M @ t # C' @ a # R)"
    and h: "get_prev s (hd (A @ M @ t # C' @ a # R)) = None"
    using c unfolding chain_h_def e1 by simp_all
  have f0: "get_first s l = Some (hd (A @ M @ t # C' @ a # R))"
    using c m unfolding chain_h_def by (auto simp: hd_append)
  have fM: "f \<in> set M" using m f_def by simp
  have ft: "f \<noteq> t" "f \<noteq> a" using d fM by auto
  have tl: "t \<noteq> l" using c tC unfolding chain_h_def by auto
  have pt: "get_prev s t = Some z"
    using lk m unfolding z_def by (auto simp: linked_append)
  have pf: "get_prev s f = lastp A"
    using prev_in_path[of s A f "tl M @ t # C' @ a # R"] lk h m f_def by (cases M) auto
  have pa: "get_prev s a \<noteq> None"
    using lk by (auto simp: linked_append linked_Cons_append)
  from splice_h_effect[OF ft pt, of l l] obtain s' where
    sp: "splice_h s l (Some a) l (Some f) (Some t) = Some s'" and rw: "rewired s s' a f t z"
    and fi: "\<And>m. get_first s' m =
       (if m = l \<and> get_prev s a = None then Some f
        else if m = l \<and> get_prev s f = None then (if t \<noteq> l then Some t else None)
        else get_first s m)"
    by blast
  from rewired_after[OF rw d m f_def z_def lk h]
  have r: "linked s' (A @ t # C' @ M @ a # R)"
    "get_prev s' (hd (A @ t # C' @ M @ a # R)) = None"
    "\<forall>y. y \<notin> set (A @ M @ t # C' @ a # R) \<longrightarrow> get_prev s' y = get_prev s y \<and> get_next s' y = get_next s y"
    by blast+
  have fl: "get_first s' l = Some (hd (A @ C @ M @ Q))"
    using fi[of l] pa pf f0 tl tC by (auto simp: hd_append)
  have 1: "chain_h s' l (A @ C @ M @ Q)"
    using r(1,2) fl d m unfolding chain_h_def e2 by auto
  have se: "set (A @ M @ C @ Q @ [l]) = set (A @ M @ t # C' @ a # R)"
    using e1 by (metis append_assoc)
  have 3: "frame s s' (set (A @ M @ C @ Q @ [l])) {l}"
    unfolding se frame_def using r(3) fi by simp
  from sp 1 3 show ?thesis unfolding f_def using aR tC by auto
qed

lemma chain_u_splice_before:
  assumes c: "chain_u s l (P @ B @ M @ C)" and m: "M \<noteq> []" and bn: "B \<noteq> []"
  shows "\<exists>s'. splice_u s l (Some (hd B)) l (Some (hd M)) (Some (hd (C @ [l]))) = Some s' \<and>
     chain_u s' l (P @ M @ B @ C) \<and> frame s s' (set (P @ B @ M @ C @ [l])) {l}"
proof -
  obtain t C' where tC: "C @ [l] = t # C'" by (cases "C @ [l]") auto
  obtain a B' where aB: "B = a # B'" using bn by (cases B) auto
  define f where "f = hd M"
  define z where "z = last M"
  have e1: "(P @ B @ M @ C) @ [l] = P @ a # B' @ M @ t # C'"
    and e2: "(P @ M @ B @ C) @ [l] = P @ M @ a # B' @ t # C'"
    using aB tC by simp_all
  have d: "distinct (P @ a # B' @ M @ t # C')"
    and lk: "linked s (P @ a # B' @ M @ t # C')"
    and h: "get_prev s (hd (P @ a # B' @ M @ t # C')) = None"
    and f0: "get_first s l = Some (hd (P @ a # B' @ M @ t # C'))"
    using c unfolding chain_u_def e1 by simp_all
  have fM: "f \<in> set M" using m f_def by simp
  have ft: "f \<noteq> t" "f \<noteq> a" using d fM by auto
  have pt: "get_prev s t = Some z"
    using lk m unfolding z_def by (auto simp: linked_append linked_Cons_append)
  have pa: "get_prev s a = lastp P" using prev_in_path[OF lk h] .
  have lk': "linked s ((P @ a # B') @ M @ t # C')" using lk by simp
  have pf: "get_prev s f \<noteq> None"
    using lk' m f_def unfolding linked_append[of s "P @ a # B'"] by (auto simp: hd_append)
  from splice_u_effect[OF ft pt, of l l] obtain s' where
    sp: "splice_u s l (Some a) l (Some f) (Some t) = Some s'" and rw: "rewired s s' a f t z"
    and fi: "\<And>m. get_first s' m =
       (if m = l \<and> get_prev s a = None then Some f
        else if m = l \<and> get_prev s f = None then Some t else get_first s m)"
    by blast
  from rewired_before[OF rw d m f_def z_def lk h]
  have r: "linked s' (P @ M @ a # B' @ t # C')"
    "get_prev s' (hd (P @ M @ a # B' @ t # C')) = None"
    "\<forall>y. y \<notin> set (P @ a # B' @ M @ t # C') \<longrightarrow> get_prev s' y = get_prev s y \<and> get_next s' y = get_next s y"
    by blast+
  have fl: "get_first s' l = Some (hd (P @ M @ a # B' @ t # C'))"
    using fi[of l] pa pf f0 m f_def by (auto simp: hd_append)
  have 1: "chain_u s' l (P @ M @ B @ C)"
    unfolding chain_u_def e2 using r(1,2) fl d by auto
  have se: "set (P @ B @ M @ C @ [l]) = set (P @ a # B' @ M @ t # C')"
    using e1 by (metis append_assoc)
  have 3: "frame s s' (set (P @ B @ M @ C @ [l])) {l}"
    unfolding se frame_def using r(3) fi by simp
  from sp 1 3 show ?thesis unfolding f_def using aB tC by auto
qed

lemma chain_h_splice_before:
  assumes c: "chain_h s l (P @ B @ M @ C)" and m: "M \<noteq> []" and bn: "B \<noteq> []"
  shows "\<exists>s'. splice_h s l (Some (hd B)) l (Some (hd M)) (Some (hd (C @ [l]))) = Some s' \<and>
     chain_h s' l (P @ M @ B @ C) \<and> frame s s' (set (P @ B @ M @ C @ [l])) {l}"
proof -
  obtain t C' where tC: "C @ [l] = t # C'" by (cases "C @ [l]") auto
  obtain a B' where aB: "B = a # B'" using bn by (cases B) auto
  define f where "f = hd M"
  define z where "z = last M"
  have e1: "(P @ B @ M @ C) @ [l] = P @ a # B' @ M @ t # C'"
    and e2: "(P @ M @ B @ C) @ [l] = P @ M @ a # B' @ t # C'"
    using aB tC by simp_all
  have d: "distinct (P @ a # B' @ M @ t # C')"
    and lk: "linked s (P @ a # B' @ M @ t # C')"
    and h: "get_prev s (hd (P @ a # B' @ M @ t # C')) = None"
    using c unfolding chain_h_def e1 by simp_all
  have f0: "get_first s l = Some (hd (P @ a # B' @ M @ t # C'))"
    using c aB unfolding chain_h_def by (auto simp: hd_append)
  have fM: "f \<in> set M" using m f_def by simp
  have ft: "f \<noteq> t" "f \<noteq> a" using d fM by auto
  have pt: "get_prev s t = Some z"
    using lk m unfolding z_def by (auto simp: linked_append linked_Cons_append)
  have pa: "get_prev s a = lastp P" using prev_in_path[OF lk h] .
  have lk': "linked s ((P @ a # B') @ M @ t # C')" using lk by simp
  have pf: "get_prev s f \<noteq> None"
    using lk' m f_def unfolding linked_append[of s "P @ a # B'"] by (auto simp: hd_append)
  from splice_h_effect[OF ft pt, of l l] obtain s' where
    sp: "splice_h s l (Some a) l (Some f) (Some t) = Some s'" and rw: "rewired s s' a f t z"
    and fi: "\<And>m. get_first s' m =
       (if m = l \<and> get_prev s a = None then Some f
        else if m = l \<and> get_prev s f = None then (if t \<noteq> l then Some t else None)
        else get_first s m)"
    by blast
  from rewired_before[OF rw d m f_def z_def lk h]
  have r: "linked s' (P @ M @ a # B' @ t # C')"
    "get_prev s' (hd (P @ M @ a # B' @ t # C')) = None"
    "\<forall>y. y \<notin> set (P @ a # B' @ M @ t # C') \<longrightarrow> get_prev s' y = get_prev s y \<and> get_next s' y = get_next s y"
    by blast+
  have fl: "get_first s' l = Some (hd (P @ M @ B @ C))"
    using fi[of l] pa pf f0 m f_def by (auto simp: hd_append)
  have 1: "chain_h s' l (P @ M @ B @ C)"
    using r(1,2) fl d m unfolding chain_h_def e2 by auto
  have se: "set (P @ B @ M @ C @ [l]) = set (P @ a # B' @ M @ t # C')"
    using e1 by (metis append_assoc)
  have 3: "frame s s' (set (P @ B @ M @ C @ [l])) {l}"
    unfolding se frame_def using r(3) fi by simp
  from sp 1 3 show ?thesis unfolding f_def using aB tC by auto
qed


section \<open>Moving a whole list\<close>

lemma move_assign_h_chain:
  assumes c: "chain_h s other ys" and l: "l \<notin> set (ys @ [other])"
  shows "chain_h (move_assign_h s l other) l ys \<and> chain_h (move_assign_h s l other) other []"
proof (cases ys rule: rev_cases)
  case Nil
  with c l show ?thesis by (auto simp: chain_h_def move_assign_h_def Let_def)
next
  case (snoc zs z)
  with c have pl: "get_prev s other = Some z" by (auto simp: chain_h_def linked_append)
  have eq: "move_assign_h s l other =
     set_prev (set_first (set_next (set_prev (set_first s l (get_first s other)) l (Some z)) z (Some l)) other None) other None"
    using pl l by (simp add: move_assign_h_def Let_def)
  show ?thesis unfolding eq using c l snoc
    by (auto simp: chain_h_def linked_append hd_append)
qed

lemma chain_u_clear: "chain_u (clear_u s l) l []"
  by (simp add: chain_u_def clear_u_def)

lemma chain_h_clear: "chain_h (clear_h s l) l []"
  by (simp add: chain_h_def clear_h_def)

lemma frame_clear_u: "frame s (clear_u s l) {l} {l}"
  by (simp add: frame_def clear_u_def)

lemma frame_list_u: "frame s (list_u s l) {l} {l}"
  by (simp add: frame_def list_u_def)

lemma move_u_from:
  assumes c0: "chain_u s1 l []" and c: "chain_u s1 other ys" and l: "l \<notin> set (ys @ [other])"
  shows "\<exists>s'. splice_u s1 l (begin_u s1 l) other (begin_u s1 other) (end_u other) = Some s' \<and>
       chain_u s' l ys \<and> chain_u s' other []"
proof (cases "ys = []")
  case True
  with c have "begin_u s1 other = end_u other" by (simp add: chain_u_def begin_u_def end_u_def)
  then show ?thesis using c0 c True by (simp add: splice_u_def)
next
  case False
  have b: "begin_u s1 l = Some (hd ([] @ [l]))" "begin_u s1 other = Some (hd ys)"
    "end_u other = Some (hd ([] @ [other]))"
    using c0 c False by (auto simp: chain_u_def begin_u_def end_u_def)
  have d: "distinct (([] @ ys @ [] @ [other]) @ ([] @ [] @ [l]))"
    using c l by (auto simp: chain_u_def)
  from chain_u_splice[of s1 l "[]" "[]" other "[]" ys "[]"] c0 c False d
  show ?thesis unfolding b by auto
qed

lemma move_assign_u_chain:
  assumes c: "chain_u s other ys" and l: "l \<notin> set (ys @ [other])"
  shows "\<exists>s'. move_assign_u s l other = Some s' \<and> chain_u s' l ys \<and> chain_u s' other []"
proof -
  have "chain_u (clear_u s l) other ys"
    by (rule frame_chain_u[OF frame_clear_u c]) (use l in auto)
  from move_u_from[OF chain_u_clear this l] show ?thesis
    by (simp add: move_assign_u_def Let_def)
qed

lemma move_ctor_u_chain:
  assumes c: "chain_u s other ys" and l: "l \<notin> set (ys @ [other])"
  shows "\<exists>s'. move_ctor_u s l other = Some s' \<and> chain_u s' l ys \<and> chain_u s' other []"
proof -
  have "chain_u (list_u s l) other ys"
    by (rule frame_chain_u[OF frame_list_u c]) (use l in auto)
  from move_u_from[OF chain_u_list this l] show ?thesis
    by (simp add: move_ctor_u_def Let_def)
qed

lemma frame_list_h: "frame s (list_h s l) {l} {l}"
  by (simp add: frame_def list_h_def)

lemma move_ctor_h_chain:
  assumes c: "chain_h s other ys" and l: "l \<notin> set (ys @ [other])"
  shows "chain_h (move_ctor_h s l other) l ys \<and> chain_h (move_ctor_h s l other) other []"
proof -
  have "chain_h (list_h s l) other ys"
    by (rule frame_chain_h[OF frame_list_h c]) (use l in auto)
  from move_assign_h_chain[OF this l] show ?thesis by (simp add: move_ctor_h_def)
qed

lemma move_assign_h_is_splice:
  assumes c: "chain_h s other ys" and l: "l \<notin> set (ys @ [other])"
  shows "splice_h (clear_h s l) l (begin_h (clear_h s l) l) other
           (begin_h (clear_h s l) other) (end_h other)
         = Some (move_assign_h s l other)"
proof (cases ys rule: rev_cases)
  case Nil
  with c l have g: "get_first s other = None" "get_prev s other = None" "l \<noteq> other"
    by (auto simp: chain_h_def)
  then have b: "begin_h (clear_h s l) other = end_h other"
    by (simp add: begin_h_def clear_h_def)
  have "move_assign_h s l other = clear_h s l"
    by (rule store_eqI) (use g in \<open>auto simp: move_assign_h_def clear_h_def Let_def\<close>)
  then show ?thesis unfolding b by (simp add: splice_h_def)
next
  case (snoc zs z)
  define f where "f = hd ys"
  define s1 where "s1 = clear_h s l"
  have ne: "ys \<noteq> []" using snoc by simp
  have g: "get_first s other = Some f" "get_prev s other = Some z" "l \<noteq> other" "f \<noteq> other" "f \<noteq> l"
    "get_prev s f = None"
    using c l snoc unfolding f_def by (auto simp: chain_h_def linked_append hd_append)
  have b: "begin_h s1 other = Some f" "begin_h s1 l = Some l" "end_h other = Some other"
    using g unfolding s1_def by (simp_all add: begin_h_def clear_h_def end_h_def)
  have p1: "get_prev s1 other = Some z" "get_prev s1 l = None" "get_prev s1 f = None"
    using g unfolding s1_def by (simp_all add: clear_h_def)
  from splice_h_effect[OF g(4) g(5) p1(1), of l other] obtain s' where
    sp: "splice_h s1 l (Some l) other (Some f) (Some other) = Some s'" and rw: "rewired s1 s' l f other z"
    and fi: "\<And>m. get_first s' m =
       (if m = l \<and> get_prev s1 l = None then Some f
        else if m = other \<and> get_prev s1 f = None then (if other \<noteq> other then Some other else None)
        else get_first s1 m)"
    by blast
  have "s' = move_assign_h s l other"
  proof (rule store_eqI)
    fix p show "get_prev s' p = get_prev (move_assign_h s l other) p"
      using rw p1 g unfolding rewired_def s1_def
      by (auto simp: move_assign_h_def Let_def clear_h_def)
  next
    fix p show "get_next s' p = get_next (move_assign_h s l other) p"
      using rw p1 g unfolding rewired_def s1_def
      by (auto simp: move_assign_h_def Let_def clear_h_def)
  next
    fix m show "get_first s' m = get_first (move_assign_h s l other) m"
      using fi[of m] p1 g unfolding s1_def
      by (auto simp: move_assign_h_def Let_def clear_h_def)
  qed
  with sp show ?thesis unfolding b s1_def[symmetric] by simp
qed

lemma frame_keeps:
  "frame s s' N L \<Longrightarrow> x \<notin> N \<Longrightarrow> get_prev s' x = get_prev s x \<and> get_next s' x = get_next s x"
  by (simp add: frame_def)

lemma move_assign_h_frame:
  assumes c: "chain_h s other ys" and l: "l \<notin> set (ys @ [other])"
  shows "frame s (move_assign_h s l other) (set (ys @ [other, l])) {l, other}"
proof (cases ys rule: rev_cases)
  case Nil
  with c l show ?thesis by (auto simp: chain_h_def move_assign_h_def Let_def frame_def)
next
  case (snoc zs z)
  with c have pl: "get_prev s other = Some z" by (auto simp: chain_h_def linked_append)
  have eq: "move_assign_h s l other =
     set_prev (set_first (set_next (set_prev (set_first s l (get_first s other)) l (Some z)) z (Some l)) other None) other None"
    using pl l by (simp add: move_assign_h_def Let_def)
  show ?thesis unfolding eq using snoc by (auto simp: frame_def)
qed

lemma move_u_from_frame:
  assumes c0: "chain_u s1 l []" and c: "chain_u s1 other ys" and l: "l \<notin> set (ys @ [other])"
  shows "\<exists>s'. splice_u s1 l (begin_u s1 l) other (begin_u s1 other) (end_u other) = Some s' \<and>
       chain_u s' l ys \<and> chain_u s' other [] \<and> frame s1 s' (set (ys @ [other, l])) {l, other}"
proof (cases "ys = []")
  case True
  with c have "begin_u s1 other = end_u other" by (simp add: chain_u_def begin_u_def end_u_def)
  then show ?thesis using c0 c True by (simp add: splice_u_def frame_refl)
next
  case False
  have b: "begin_u s1 l = Some (hd ([] @ [l]))" "begin_u s1 other = Some (hd ys)"
    "end_u other = Some (hd ([] @ [other]))"
    using c0 c False by (auto simp: chain_u_def begin_u_def end_u_def)
  have d: "distinct (([] @ ys @ [] @ [other]) @ ([] @ [] @ [l]))"
    using c l by (auto simp: chain_u_def)
  from chain_u_splice[of s1 l "[]" "[]" other "[]" ys "[]"] c0 c False d
  show ?thesis unfolding b by auto
qed

lemma move_assign_u_frame:
  assumes c: "chain_u s other ys" and l: "l \<notin> set (ys @ [other])"
  shows "\<exists>s'. move_assign_u s l other = Some s' \<and> chain_u s' l ys \<and> chain_u s' other [] \<and>
     frame s s' (set (ys @ [other, l])) {l, other}"
proof -
  have f1: "frame s (clear_u s l) (set (ys @ [other, l])) {l, other}"
    by (rule frame_mono[OF frame_clear_u]) auto
  have "chain_u (clear_u s l) other ys"
    by (rule frame_chain_u[OF frame_clear_u c]) (use l in auto)
  from move_u_from_frame[OF chain_u_clear this l] obtain s' where
    s': "splice_u (clear_u s l) l (begin_u (clear_u s l) l) other (begin_u (clear_u s l) other) (end_u other) = Some s'"
    "chain_u s' l ys" "chain_u s' other []" "frame (clear_u s l) s' (set (ys @ [other, l])) {l, other}"
    by blast
  from frame_trans[OF f1 s'(4)] s'(1-3) show ?thesis
    by (simp add: move_assign_u_def Let_def)
qed


section \<open>\<open>unlink\<close>\<close>

lemma unlink_h_detached:
  "get_prev s p = None \<Longrightarrow> get_next s p = None \<Longrightarrow> unlink_h s p = s"
  by (simp add: unlink_h_def)

lemma unlink_u_detached:
  "get_prev s p = None \<Longrightarrow> get_next s p = None \<Longrightarrow> unlink_u s p = s"
  by (simp add: unlink_u_def)

text \<open>
  In \<^verbatim>\<open>src/intrusive_list.h\<close> a second \<open>unlink\<close> repeats the two writes of the first with
  the same values.
\<close>

lemma unlink_h_idem: "unlink_h (unlink_h s p) p = unlink_h s p"
  by (rule store_eqI) (auto simp: unlink_h_def Let_def split: option.splits)

lemma unlink_h_neighbours:
  "(\<forall>q. get_prev s p = Some q \<longrightarrow> get_next (unlink_h s p) q = get_next s p) \<and>
   (\<forall>n. get_next s p = Some n \<longrightarrow> get_prev (unlink_h s p) n = get_prev s p) \<and>
   get_prev (unlink_h s p) p = get_prev s p \<and> get_next (unlink_h s p) p = get_next s p"
  by (auto simp: unlink_h_def Let_def split: option.splits)

text \<open>
  Claim C3. Detaching twice in a row should leave the neighbours as a single detach leaves
  them. In \<^verbatim>\<open>src/unnamed/part_000\<close> it does not: in the list 1, 2, 3 the first
  \<open>unlink\<close> of element 2 makes element 1 point to 3 and clears only the \<open>next\<close> of 2; the
  second \<open>unlink\<close> finds \<open>prev\<close> still set and overwrites the \<open>next\<close> of element 1 with
  null.
\<close>

theorem unlink_u_twice_changes_neighbour:
  "map_option
     (\<lambda>s. (get_next (unlink_u s 2) 1, get_next (unlink_u (unlink_u s 2) 2) 1))
     (build_u null_store 0 [1, 2, 3])
   = Some (Some 3, None)"
  by (simp add: build_u_def list_u_def push_back_u_def insert_u_def end_u_def unlink_u_def
      Let_def)

text \<open>
  Claim C4. After a detach the next neighbour's \<open>prev\<close> should refer to the former
  \<open>prev\<close> and both own references should be null. For element 2 of the list 1, 2, 3,
  \<open>unlink\<close> of \<^verbatim>\<open>src/unnamed/part_000\<close> leaves the \<open>prev\<close> of element 3 at 2 and its
  own \<open>prev\<close> at 1; \<open>unlink\<close> of \<^verbatim>\<open>src/intrusive_list.h\<close> rewires both neighbours
  and leaves both own references as they were.
\<close>

theorem unlink_postcondition_fails:
  "map_option
     (\<lambda>s. (get_prev (unlink_u s 2) 3, get_prev (unlink_u s 2) 2, get_next (unlink_u s 2) 2))
     (build_u null_store 0 [1, 2, 3])
   = Some (Some 2, Some 1, None) \<and>
   (\<lambda>s. (get_next (unlink_h s 2) 1, get_prev (unlink_h s 2) 3,
          get_prev (unlink_h s 2) 2, get_next (unlink_h s 2) 2))
     (build_h null_store 0 [1, 2, 3])
   = (Some 3, Some 1, Some 1, Some 3)"
  by (simp add: build_u_def list_u_def push_back_u_def insert_u_def end_u_def unlink_u_def
      build_h_def list_h_def push_back_h_def unlink_h_def Let_def)

section \<open>\<open>erase\<close> at the end position\<close>

text \<open>
  Claim C10. In both files \<open>erase(end())\<close> returns \<open>end()\<close> and leaves the store, hence
  every list and every link, as it was.
\<close>

theorem erase_end_noop:
  "erase_h s l (end_h l) = Some (s, end_h l) \<and> erase_u s l (end_u l) = Some (s, end_u l)"
  by (simp add: erase_h_def erase_u_def)

section \<open>The claims about \<open>splice\<close>, \<open>erase\<close> and moving\<close>

text \<open>
  Claim C1. For a receiver with the members \<open>P @ Q\<close> and a different, non-empty donor
  with the members \<open>ys\<close> (the \<open>after_last\<close> node of neither list being a member of the
  other), \<open>splice(pos, donor, donor.begin(), donor.end())\<close> with \<open>pos\<close> at
  the first member of \<open>Q\<close> (at \<open>end()\<close> when \<open>Q\<close> is empty) leaves the donor empty and
  the receiver with the members \<open>P @ ys @ Q\<close>, which is also what \<open>empty()\<close> and an
  iteration from \<open>begin()\<close> to \<open>end()\<close> report. In both files.
\<close>

theorem splice_whole_donor:
  assumes "l \<noteq> d" and "l \<notin> set ys" and "d \<notin> set (P @ Q)" and "ys \<noteq> []"
  shows "(chain_h s l (P @ Q) \<and> chain_h s d ys \<longrightarrow>
            (\<exists>s'. splice_h s l (Some (hd (Q @ [l]))) d (begin_h s d) (end_h d) = Some s' \<and>
                   chain_h s' d [] \<and> empty_h s' d \<and> chain_h s' l (P @ ys @ Q) \<and>
                   to_list_h (Suc (length (P @ ys @ Q))) s' l = Some (P @ ys @ Q))) \<and>
         (chain_u t l (P @ Q) \<and> chain_u t d ys \<longrightarrow>
            (\<exists>t'. splice_u t l (Some (hd (Q @ [l]))) d (begin_u t d) (end_u d) = Some t' \<and>
                   chain_u t' d [] \<and> empty_u t' d \<and> chain_u t' l (P @ ys @ Q) \<and>
                   to_list_u (Suc (length (P @ ys @ Q))) t' l = Some (P @ ys @ Q)))"
proof (intro conjI impI)
  assume c: "chain_h s l (P @ Q) \<and> chain_h s d ys"
  then have b: "begin_h s d = Some (hd ys)" "end_h d = Some (hd ([] @ [d]))"
    using assms(4) by (auto simp: chain_h_def begin_h_def end_h_def)
  have "distinct ((ys @ [d]) @ ((P @ Q) @ [l]))"
    using chains_distinct_h[of s l "P @ Q" d ys] c assms(1-3) by blast
  then have dj: "distinct (([] @ ys @ [] @ [d]) @ (P @ Q @ [l]))" by simp
  from chain_h_splice[of s l P Q d "[]" ys "[]"] c assms(4) dj
  obtain s' where
    s': "splice_h s l (Some (hd (Q @ [l]))) d (Some (hd ys)) (Some (hd ([] @ [d]))) = Some s'"
      "chain_h s' l (P @ ys @ Q)" "chain_h s' d []"
    by auto
  show "\<exists>s'. splice_h s l (Some (hd (Q @ [l]))) d (begin_h s d) (end_h d) = Some s' \<and>
      chain_h s' d [] \<and> empty_h s' d \<and> chain_h s' l (P @ ys @ Q) \<and>
      to_list_h (Suc (length (P @ ys @ Q))) s' l = Some (P @ ys @ Q)"
    unfolding b using s' chain_h_empty[OF s'(3)] chain_h_to_list[OF s'(2)] by auto
next
  assume c: "chain_u t l (P @ Q) \<and> chain_u t d ys"
  then have b: "begin_u t d = Some (hd ys)" "end_u d = Some (hd ([] @ [d]))"
    using assms(4) by (auto simp: chain_u_def begin_u_def end_u_def)
  have "distinct ((ys @ [d]) @ ((P @ Q) @ [l]))"
    using chains_distinct_u[of t l "P @ Q" d ys] c assms(1-3) by blast
  then have dj: "distinct (([] @ ys @ [] @ [d]) @ (P @ Q @ [l]))" by simp
  from chain_u_splice[of t l P Q d "[]" ys "[]"] c assms(4) dj
  obtain t' where
    t': "splice_u t l (Some (hd (Q @ [l]))) d (Some (hd ys)) (Some (hd ([] @ [d]))) = Some t'"
      "chain_u t' l (P @ ys @ Q)" "chain_u t' d []"
    by auto
  show "\<exists>t'. splice_u t l (Some (hd (Q @ [l]))) d (begin_u t d) (end_u d) = Some t' \<and>
      chain_u t' d [] \<and> empty_u t' d \<and> chain_u t' l (P @ ys @ Q) \<and>
      to_list_u (Suc (length (P @ ys @ Q))) t' l = Some (P @ ys @ Q)"
    unfolding b using t' chain_u_empty[OF t'(3)] chain_u_to_list[OF t'(2)] by auto
qed

theorem splice_whole_donor_witness:
  "chain_h (build_h (build_h null_store 0 [1, 2]) 10 [11, 12]) 0 [1, 2] \<and>
   chain_h (build_h (build_h null_store 0 [1, 2]) 10 [11, 12]) 10 [11, 12] \<and>
   (\<exists>s'. splice_h (build_h (build_h null_store 0 [1, 2]) 10 [11, 12]) 0 (Some 2) 10
            (begin_h (build_h (build_h null_store 0 [1, 2]) 10 [11, 12]) 10) (end_h 10) = Some s' \<and>
          empty_h s' 10 \<and> to_list_h (Suc (length [1, 11, 12, 2::nat])) s' 0 = Some [1, 11, 12, 2]) \<and>
   (\<exists>t. Option.bind (build_u null_store 0 [1, 2]) (\<lambda>s. build_u s 10 [11, 12]) = Some t \<and>
         chain_u t 0 [1, 2] \<and> chain_u t 10 [11, 12] \<and>
         (\<exists>t'. splice_u t 0 (Some 2) 10 (begin_u t 10) (end_u 10) = Some t' \<and>
                empty_u t' 10 \<and> to_list_u (Suc (length [1, 11, 12, 2::nat])) t' 0 = Some [1, 11, 12, 2]))"
proof -
  define s where "s = build_h (build_h null_store 0 [1, 2]) 10 [11, 12]"
  have h: "chain_h s 0 ([1] @ [2])" "chain_h s 10 [11, 12]"
    unfolding s_def by (simp_all add: chain_h_def build_h_def push_back_h_def list_h_def Let_def)
  obtain t where t: "Option.bind (build_u null_store 0 [1, 2]) (\<lambda>s. build_u s 10 [11, 12]) = Some t"
    "chain_u t 0 ([1] @ [2])" "chain_u t 10 [11, 12]"
    by (simp add: chain_u_def build_u_def push_back_u_def insert_u_def end_u_def list_u_def Let_def)
  have d: "(0::nat) \<noteq> 10" "(0::nat) \<notin> set [11, 12]" "(10::nat) \<notin> set ([1] @ [2])"
    "[11, 12] \<noteq> ([]::nat list)"
    by simp_all
  from splice_whole_donor[OF d, of s t] h t(2,3)
  show ?thesis unfolding s_def[symmetric] using t(1) by simp blast
qed

text \<open>
  Claim C2. In a chain with exactly the five members \<open>a, b, c, d, e\<close> (the elements 1 to
  5 of the scenario), the self-splice \<open>splice(pos of e, A, pos of b, pos of d)\<close> moves the
  range \<open>b, c\<close> in front of \<open>e\<close>: the chain then holds \<open>a, d, b, c, e\<close>, and an iteration
  yields exactly this sequence. In both files.
\<close>

theorem self_splice_scenario:
  "(chain_h s l [a, b, c, d, e] \<longrightarrow>
      (\<exists>s'. splice_h s l (Some e) l (Some b) (Some d) = Some s' \<and>
             chain_h s' l [a, d, b, c, e] \<and>
             to_list_h (Suc (length [a, d, b, c, e])) s' l = Some [a, d, b, c, e])) \<and>
   (chain_u t l [a, b, c, d, e] \<longrightarrow>
      (\<exists>t'. splice_u t l (Some e) l (Some b) (Some d) = Some t' \<and>
             chain_u t' l [a, d, b, c, e] \<and>
             to_list_u (Suc (length [a, d, b, c, e])) t' l = Some [a, d, b, c, e]))"
proof (intro conjI impI)
  assume "chain_h s l [a, b, c, d, e]"
  then have "chain_h s l ([a] @ [b, c] @ [d] @ [e])" by simp
  from chain_h_splice_after[OF this]
  obtain s' where s': "splice_h s l (Some e) l (Some b) (Some d) = Some s'"
    "chain_h s' l [a, d, b, c, e]" by auto
  from s' chain_h_to_list[OF s'(2), of "Suc (length [a, d, b, c, e])"]
  show "\<exists>s'. splice_h s l (Some e) l (Some b) (Some d) = Some s' \<and>
      chain_h s' l [a, d, b, c, e] \<and>
      to_list_h (Suc (length [a, d, b, c, e])) s' l = Some [a, d, b, c, e]"
    by simp
next
  assume "chain_u t l [a, b, c, d, e]"
  then have "chain_u t l ([a] @ [b, c] @ [d] @ [e])" by simp
  from chain_u_splice_after[OF this]
  obtain t' where t': "splice_u t l (Some e) l (Some b) (Some d) = Some t'"
    "chain_u t' l [a, d, b, c, e]" by auto
  from t' chain_u_to_list[OF t'(2), of "Suc (length [a, d, b, c, e])"]
  show "\<exists>t'. splice_u t l (Some e) l (Some b) (Some d) = Some t' \<and>
      chain_u t' l [a, d, b, c, e] \<and>
      to_list_u (Suc (length [a, d, b, c, e])) t' l = Some [a, d, b, c, e]"
    by simp
qed

theorem self_splice_scenario_witness:
  "chain_h (build_h null_store 0 [1, 2, 3, 4, 5]) 0 [1, 2, 3, 4, 5] \<and>
   (\<exists>s'. splice_h (build_h null_store 0 [1, 2, 3, 4, 5]) 0 (Some 5) 0 (Some 2) (Some 4) = Some s' \<and>
          to_list_h (Suc (length [1, 4, 2, 3, 5::nat])) s' 0 = Some [1, 4, 2, 3, 5]) \<and>
   (\<exists>t. build_u null_store 0 [1, 2, 3, 4, 5] = Some t \<and> chain_u t 0 [1, 2, 3, 4, 5] \<and>
        (\<exists>t'. splice_u t 0 (Some 5) 0 (Some 2) (Some 4) = Some t' \<and>
               to_list_u (Suc (length [1, 4, 2, 3, 5::nat])) t' 0 = Some [1, 4, 2, 3, 5]))"
proof -
  define s where "s = build_h null_store 0 [1, 2, 3, 4, 5]"
  have h: "chain_h s 0 [1, 2, 3, 4, 5]"
    unfolding s_def by (simp add: chain_h_def build_h_def push_back_h_def list_h_def Let_def)
  obtain t where t: "build_u null_store 0 [1, 2, 3, 4, 5] = Some t" "chain_u t 0 [1, 2, 3, 4, 5]"
    by (simp add: chain_u_def build_u_def push_back_u_def insert_u_def end_u_def list_u_def Let_def)
  from self_splice_scenario[of s 0 1 2 3 4 5 t] h t(2)
  show ?thesis unfolding s_def[symmetric] using t(1) by simp blast
qed



text \<open>
  Moving from a well-formed chain with the members \<open>ys\<close> (empty or not) into another list
  \<open>l\<close>, by move assignment or by move construction, leaves \<open>l\<close> with the members \<open>ys\<close>
  in the same order and the source empty. In \<^verbatim>\<open>src/unnamed/part_000\<close> both are by
  definition a \<open>splice\<close> of \<open>[begin, end)\<close> into the cleared or new list; in
  \<^verbatim>\<open>src/intrusive_list.h\<close> the assignment, written out by hand, produces the store that
  this \<open>splice\<close> produces. An empty list of \<^verbatim>\<open>src/intrusive_list.h\<close> is well formed
  when \<open>first\<close> is null, which is not what its \<open>pop_front\<close> and \<open>erase\<close> leave behind.
\<close>

lemma move_transfers_members:
  assumes "l \<notin> set (ys @ [other])"
  shows "(chain_h s other ys \<longrightarrow>
            splice_h (clear_h s l) l (begin_h (clear_h s l) l) other
              (begin_h (clear_h s l) other) (end_h other) = Some (move_assign_h s l other) \<and>
            chain_h (move_assign_h s l other) l ys \<and>
            chain_h (move_assign_h s l other) other [] \<and>
            to_list_h (Suc (length ys)) (move_assign_h s l other) l = Some ys \<and>
            empty_h (move_assign_h s l other) other \<and>
            chain_h (move_ctor_h s l other) l ys \<and>
            chain_h (move_ctor_h s l other) other [] \<and>
            to_list_h (Suc (length ys)) (move_ctor_h s l other) l = Some ys \<and>
            empty_h (move_ctor_h s l other) other) \<and>
         (chain_u t other ys \<longrightarrow>
            (\<exists>t'. move_assign_u t l other = Some t' \<and> chain_u t' l ys \<and> chain_u t' other [] \<and>
                   to_list_u (Suc (length ys)) t' l = Some ys \<and> empty_u t' other) \<and>
            (\<exists>t'. move_ctor_u t l other = Some t' \<and> chain_u t' l ys \<and> chain_u t' other [] \<and>
                   to_list_u (Suc (length ys)) t' l = Some ys \<and> empty_u t' other))"
proof (intro conjI impI)
  assume c: "chain_h s other ys"
  show "splice_h (clear_h s l) l (begin_h (clear_h s l) l) other
      (begin_h (clear_h s l) other) (end_h other) = Some (move_assign_h s l other)"
    by (rule move_assign_h_is_splice[OF c assms])
  note a = move_assign_h_chain[OF c assms]
  show "chain_h (move_assign_h s l other) l ys" "chain_h (move_assign_h s l other) other []"
    using a by simp_all
  show "to_list_h (Suc (length ys)) (move_assign_h s l other) l = Some ys"
    using a by (simp add: chain_h_to_list)
  show "empty_h (move_assign_h s l other) other"
    using a chain_h_empty[of "move_assign_h s l other" other "[]"] by simp
  note b = move_ctor_h_chain[OF c assms]
  show "chain_h (move_ctor_h s l other) l ys" "chain_h (move_ctor_h s l other) other []"
    using b by simp_all
  show "to_list_h (Suc (length ys)) (move_ctor_h s l other) l = Some ys"
    using b by (simp add: chain_h_to_list)
  show "empty_h (move_ctor_h s l other) other"
    using b chain_h_empty[of "move_ctor_h s l other" other "[]"] by simp
next
  assume c: "chain_u t other ys"
  from move_assign_u_chain[OF c assms] obtain t' where
    t': "move_assign_u t l other = Some t'" "chain_u t' l ys" "chain_u t' other []" by blast
  show "\<exists>t'. move_assign_u t l other = Some t' \<and> chain_u t' l ys \<and> chain_u t' other [] \<and>
      to_list_u (Suc (length ys)) t' l = Some ys \<and> empty_u t' other"
    using t' chain_u_to_list[OF t'(2), of "Suc (length ys)"] chain_u_empty[OF t'(3)] by simp
next
  assume c: "chain_u t other ys"
  from move_ctor_u_chain[OF c assms] obtain t' where
    t': "move_ctor_u t l other = Some t'" "chain_u t' l ys" "chain_u t' other []" by blast
  show "\<exists>t'. move_ctor_u t l other = Some t' \<and> chain_u t' l ys \<and> chain_u t' other [] \<and>
      to_list_u (Suc (length ys)) t' l = Some ys \<and> empty_u t' other"
    using t' chain_u_to_list[OF t'(2), of "Suc (length ys)"] chain_u_empty[OF t'(3)] by simp
qed

lemma move_transfers_members_witness:
  "chain_h (build_h null_store 10 [11, 12]) 10 [11, 12] \<and>
   to_list_h (Suc (length [11, 12::nat])) (move_assign_h (build_h null_store 10 [11, 12]) 0 10) 0
     = Some [11, 12] \<and>
   empty_h (move_assign_h (build_h null_store 10 [11, 12]) 0 10) 10 \<and>
   (\<exists>t. build_u null_store 10 [11, 12] = Some t \<and> chain_u t 10 [11, 12] \<and>
        (\<exists>t'. move_assign_u t 0 10 = Some t' \<and>
               to_list_u (Suc (length [11, 12::nat])) t' 0 = Some [11, 12] \<and> empty_u t' 10))"
proof -
  define s where "s = build_h null_store 10 [11, 12]"
  have h: "chain_h s 10 [11, 12]"
    unfolding s_def by (simp add: chain_h_def build_h_def push_back_h_def list_h_def Let_def)
  obtain t where t: "build_u null_store 10 [11, 12] = Some t" "chain_u t 10 [11, 12]"
    by (simp add: chain_u_def build_u_def push_back_u_def insert_u_def end_u_def list_u_def Let_def)
  have l: "(0::nat) \<notin> set ([11, 12] @ [10])" by simp
  from move_transfers_members[OF l, of s t] h t(2)
  show ?thesis unfolding s_def[symmetric] using t(1) by simp blast
qed

text \<open>
  Claim C8. Moving from a chain of any size, the empty one included, should leave the
  target with the source's members and behave as the \<open>splice\<close> of \<open>[begin, end)\<close> into the
  emptied target. In \<^verbatim>\<open>src/intrusive_list.h\<close> it does not for the list at 10 of
  \<open>emptied_h\<close>, which is empty (\<open>begin() == end()\<close>, an iteration yields nothing) with
  \<open>first == &after_last\<close>: move assignment and move construction copy that pointer, so
  the target at 0 is not empty and an iteration from its \<open>begin()\<close> never reaches its
  \<open>end()\<close>, whatever the bound, while the \<open>splice\<close> returns at once and leaves the cleared
  target empty.
\<close>

theorem move_from_emptied_list:
  "begin_h emptied_h 10 = end_h 10 \<and>
   to_list_h (Suc 0) emptied_h 10 = Some [] \<and>
   empty_h (move_assign_h emptied_h 0 10) 0 = False \<and>
   to_list_h n (move_assign_h emptied_h 0 10) 0 = None \<and>
   empty_h (move_ctor_h emptied_h 0 10) 0 = False \<and>
   to_list_h n (move_ctor_h emptied_h 0 10) 0 = None \<and>
   splice_h (clear_h emptied_h 0) 0 (begin_h (clear_h emptied_h 0) 0) 10
     (begin_h (clear_h emptied_h 0) 10) (end_h 10) = Some (clear_h emptied_h 0) \<and>
   empty_h (clear_h emptied_h 0) 0 = True \<and>
   to_list_h (Suc 0) (clear_h emptied_h 0) 0 = Some []"
proof -
  have a: "to_list_h n (move_assign_h emptied_h 0 10) 0 = None"
  proof (cases n)
    case 0
    then show ?thesis by (simp add: to_list_h_def)
  next
    case (Suc m)
    then show ?thesis
      by (cases m)
        (simp_all add: to_list_h_def emptied_h_def move_assign_h_def pop_front_h_def
          push_back_h_def list_h_def begin_h_def end_h_def Let_def deref_def inc_h_def)
  qed
  have b: "to_list_h n (move_ctor_h emptied_h 0 10) 0 = None"
  proof (cases n)
    case 0
    then show ?thesis by (simp add: to_list_h_def)
  next
    case (Suc m)
    then show ?thesis
      by (cases m)
        (simp_all add: to_list_h_def emptied_h_def move_ctor_h_def move_assign_h_def
          pop_front_h_def push_back_h_def list_h_def begin_h_def end_h_def Let_def deref_def
          inc_h_def)
  qed
  have c: "begin_h emptied_h 10 = end_h 10 \<and>
     to_list_h (Suc 0) emptied_h 10 = Some [] \<and>
     empty_h (move_assign_h emptied_h 0 10) 0 = False \<and>
     empty_h (move_ctor_h emptied_h 0 10) 0 = False \<and>
     splice_h (clear_h emptied_h 0) 0 (begin_h (clear_h emptied_h 0) 0) 10
       (begin_h (clear_h emptied_h 0) 10) (end_h 10) = Some (clear_h emptied_h 0) \<and>
     empty_h (clear_h emptied_h 0) 0 = True \<and>
     to_list_h (Suc 0) (clear_h emptied_h 0) 0 = Some []"
    by (simp add: to_list_h_def emptied_h_def move_ctor_h_def move_assign_h_def
        pop_front_h_def push_back_h_def list_h_def begin_h_def end_h_def Let_def deref_def
        inc_h_def empty_h_def clear_h_def splice_h_def)
  from a b c show ?thesis by simp
qed


section \<open>Destroying a member; the two files compared\<close>

text \<open>
  For a member that is not the first, \<open>unlink\<close> of \<^verbatim>\<open>src/intrusive_list.h\<close> produces the
  store that \<open>erase\<close> produces, so destroying such a member takes it out of its chain.
  \<open>erase\<close> treats the first member by writing \<open>first\<close>; \<open>unlink\<close> has no access to the
  list.
\<close>

lemma unlink_h_as_erase:
  assumes c: "chain_h s l (P @ x # Q)" and p: "P \<noteq> []"
  shows "erase_h s l (Some x) = Some (unlink_h s x, Some (hd (Q @ [l])))"
proof -
  obtain P' q where P: "P = P' @ [q]" using p by (cases P rule: rev_cases) auto
  obtain n R where nR: "Q @ [l] = n # R" by (cases "Q @ [l]") auto
  have e: "(P @ x # Q) @ [l] = P' @ q # x # n # R" using P nR by simp
  have d: "distinct (P' @ q # x # n # R)" and lk: "linked s (P' @ q # x # n # R)"
    using c unfolding chain_h_def e by simp_all
  have g: "get_prev s x = Some q" "get_next s x = Some n" "x \<noteq> l" "q \<noteq> n" "x \<noteq> q" "x \<noteq> n"
    using lk d c by (auto simp: linked_append chain_h_def)
  have "unlink_h s x = set_next (set_prev s n (Some q)) q (Some n)"
    by (rule store_eqI) (use g in \<open>auto simp: unlink_h_def Let_def\<close>)
  then show ?thesis using g nR by (simp add: erase_h_def end_h_def Let_def)
qed

lemma destroy_h_member:
  assumes c: "chain_h s l (P @ x # Q)" and p: "P \<noteq> []"
  shows "chain_h (destroy_h s x) l (P @ Q)"
proof -
  from chain_h_erase[OF c] p obtain s' where
    "erase_h s l (Some x) = Some (s', Some (hd (Q @ [l])))" "chain_h s' l (P @ Q)" by auto
  then show ?thesis using unlink_h_as_erase[OF c p] by (simp add: destroy_h_def)
qed

text \<open>
  Claim C6. Destroying a member should take it out of the iteration sequence and leave no
  reference to it in the chain, also when it is the first member. In the list 1, 2 of
  either file, after the destructor of element 1 has run, \<open>first\<close> still points to
  element 1 and an iteration still yields 1, 2. In \<^verbatim>\<open>src/unnamed/part_000\<close> the
  destructor of the last element 2 leaves \<open>after_last.prev\<close>, hence \<open>back()\<close>, pointing to
  element 2.
\<close>

theorem destroy_first_member_stays:
  "(\<lambda>s. (get_first s 0, to_list_h (Suc (length [1, 2::nat])) s 0))
     (destroy_h (build_h null_store 0 [1, 2]) 1) = (Some 1, Some [1, 2]) \<and>
   map_option
     (\<lambda>s. (get_first (destroy_u s 1) 0, to_list_u (Suc (length [1, 2::nat])) (destroy_u s 1) 0))
     (build_u null_store 0 [1, 2]) = Some (Some 1, Some [1, 2]) \<and>
   map_option (\<lambda>s. back_u (destroy_u s 2) 0) (build_u null_store 0 [1, 2]) = Some (Some 2)"
  by (simp add: destroy_h_def destroy_u_def unlink_h_def unlink_u_def build_h_def build_u_def
      push_back_h_def push_back_u_def insert_u_def list_h_def list_u_def end_u_def end_h_def
      begin_h_def begin_u_def to_list_h_def to_list_u_def deref_def inc_h_def inc_u_def
      back_u_def Let_def)

text \<open>
  After \<open>push_front\<close> on an empty list of \<^verbatim>\<open>src/intrusive_list.h\<close> the new element has a
  null \<open>next\<close>: an iteration from \<open>begin()\<close> never reaches \<open>end()\<close>, whatever the bound.
\<close>

lemma push_front_h_empty_no_iteration:
  "to_list_h n (push_front_h (list_h null_store 0) 0 1) 0 = None"
proof (cases n)
  case 0
  then show ?thesis by (simp add: to_list_h_def)
next
  case (Suc m)
  then show ?thesis
    by (cases m)
      (simp_all add: to_list_h_def push_front_h_def list_h_def begin_h_def end_h_def Let_def
        deref_def inc_h_def)
qed

text \<open>
  Claim C9. The two files should give the same observable results for the same operations.
  They do not: after \<open>push_back(x); pop_front()\<close> on a new list, \<open>empty()\<close> is false in
  \<^verbatim>\<open>src/intrusive_list.h\<close> (its \<open>pop_front\<close> stores \<open>&after_last\<close> in \<open>first\<close>, its
  \<open>empty()\<close> tests \<open>first == nullptr\<close>) and true in \<^verbatim>\<open>src/unnamed/part_000\<close>; after
  \<open>push_front(x)\<close> on a new list an iteration with three loop tests yields nothing in the
  first file and the one element in the second.
\<close>

theorem realizations_diverge:
  "empty_h (pop_front_h (push_back_h (list_h null_store 0) 0 1) 0) 0 = False \<and>
   Option.bind (push_back_u (list_u null_store 0) 0 1)
     (\<lambda>s. map_option (\<lambda>s'. empty_u s' 0) (pop_front_u s 0)) = Some True \<and>
   to_list_h (Suc (Suc (Suc 0))) (push_front_h (list_h null_store 0) 0 1) 0 = None \<and>
   Option.bind (push_front_u (list_u null_store 0) 0 1)
     (\<lambda>s. to_list_u (Suc (Suc (Suc 0))) s 0) = Some [1]"
  by (simp add: empty_h_def empty_u_def pop_front_h_def pop_front_u_def push_back_h_def
      push_back_u_def push_front_h_def push_front_u_def insert_u_def erase_u_def list_h_def
      list_u_def end_u_def end_h_def begin_u_def begin_h_def clear_h_def to_list_h_def
      to_list_u_def deref_def inc_h_def inc_u_def Let_def)


section \<open>The chain invariant\<close>

text \<open>
  What the operations do keep. On well-formed chains every operation of
  \<^verbatim>\<open>src/unnamed/part_000\<close> leaves the chain it is applied to (for \<open>splice\<close> and move
  assignment, both chains) well formed with the expected members, and writes only links
  of the nodes of these chains and of the inserted element, so that every other chain
  stays as it was (the last line of each half). The links of an element removed by
  \<open>pop_front\<close>, \<open>pop_back\<close> or \<open>erase\<close> are among those not written. The second half is
  \<^verbatim>\<open>src/intrusive_list.h\<close>, there for \<open>push_front\<close> on a non-empty chain only and for
  \<open>pop_front\<close> and \<open>erase\<close> only when a member remains. A \<open>splice\<close> within a chain is
  covered for a position outside the moved range and different from its end. The cases
  left out are not covered because they fail, as the theorem at the end of this section shows.
\<close>

lemma chain_operations_keep_chains:
  "\<comment> \<open>push_front\<close>
   (chain_u t l xs \<and>
    e \<notin> set (xs @ [l]) \<longrightarrow>
       (\<exists>t'. push_front_u t l e = Some t' \<and>
          chain_u t' l (e # xs) \<and>
          frame t t' (set (e # xs @ [l])) {l})) \<and>
   \<comment> \<open>push_back\<close>
   (chain_u t l xs \<and>
    e \<notin> set (xs @ [l]) \<longrightarrow>
       (\<exists>t'. push_back_u t l e = Some t' \<and>
          chain_u t' l (xs @ [e]) \<and>
          frame t t' (set (e # xs @ [l])) {l})) \<and>
   \<comment> \<open>insert\<close>
   (chain_u t l (P @ Q) \<and>
    e \<notin> set (P @ Q @ [l]) \<longrightarrow>
       (\<exists>t'. insert_u t l (Some (hd (Q @ [l]))) e = Some (t', Some e) \<and>
          chain_u t' l (P @ e # Q) \<and>
          frame t t' (set (e # P @ Q @ [l])) {l})) \<and>
   \<comment> \<open>pop_front\<close>
   (chain_u t l (x # xs) \<longrightarrow>
       (\<exists>t'. pop_front_u t l = Some t' \<and>
          chain_u t' l xs \<and>
          frame t t' (set (xs @ [l])) {l} \<and>
          get_prev t' x = get_prev t x \<and>
          get_next t' x = get_next t x)) \<and>
   \<comment> \<open>pop_back\<close>
   (chain_u t l (xs @ [x]) \<longrightarrow>
       (\<exists>t'. pop_back_u t l = Some t' \<and>
          chain_u t' l xs \<and>
          frame t t' (set (xs @ [l])) {l} \<and>
          get_prev t' x = get_prev t x \<and>
          get_next t' x = get_next t x)) \<and>
   \<comment> \<open>erase\<close>
   (chain_u t l (P @ x # Q) \<longrightarrow>
       (\<exists>t'. erase_u t l (Some x) = Some (t', Some (hd (Q @ [l]))) \<and>
          chain_u t' l (P @ Q) \<and>
          frame t t' (set (P @ Q @ [l])) {l} \<and>
          get_prev t' x = get_prev t x \<and>
          get_next t' x = get_next t x)) \<and>
   \<comment> \<open>splice from another chain\<close>
   (chain_u t l (P @ Q) \<and>
    chain_u t d (A @ M @ C) \<and>
    M \<noteq> [] \<and>
    l \<noteq> d \<and> l \<notin> set (A @ M @ C) \<and> d \<notin> set (P @ Q) \<longrightarrow>
       (\<exists>t'. splice_u t l (Some (hd (Q @ [l]))) d (Some (hd M)) (Some (hd (C @ [d]))) = Some t' \<and>
          chain_u t' l (P @ M @ Q) \<and>
          chain_u t' d (A @ C) \<and>
          frame t t' (set (A @ M @ C @ [d] @ P @ Q @ [l])) {l, d})) \<and>
   \<comment> \<open>splice within the chain, to a later position\<close>
   (chain_u t l (A @ M @ C @ Q) \<and>
    M \<noteq> [] \<and>
    C \<noteq> [] \<longrightarrow>
       (\<exists>t'. splice_u t l (Some (hd (Q @ [l]))) l (Some (hd M)) (Some (hd C)) = Some t' \<and>
          chain_u t' l (A @ C @ M @ Q) \<and>
          frame t t' (set (A @ M @ C @ Q @ [l])) {l})) \<and>
   \<comment> \<open>splice within the chain, to an earlier position\<close>
   (chain_u t l (P @ B @ M @ C) \<and>
    M \<noteq> [] \<and>
    B \<noteq> [] \<longrightarrow>
       (\<exists>t'. splice_u t l (Some (hd B)) l (Some (hd M)) (Some (hd (C @ [l]))) = Some t' \<and>
          chain_u t' l (P @ M @ B @ C) \<and>
          frame t t' (set (P @ B @ M @ C @ [l])) {l})) \<and>
   \<comment> \<open>move assignment\<close>
   (chain_u t d ys \<and>
    l \<notin> set (ys @ [d]) \<longrightarrow>
       (\<exists>t'. move_assign_u t l d = Some t' \<and>
          chain_u t' l ys \<and>
          chain_u t' d [] \<and>
          frame t t' (set (ys @ [d, l])) {l, d})) \<and>
   \<comment> \<open>a chain away from the written nodes stays\<close>
   (frame t t' N L \<and>
    chain_u t m zs \<and>
    set (zs @ [m]) \<inter> N = {} \<and>
    m \<notin> L \<longrightarrow>
       chain_u t' m zs) \<and>
   \<comment> \<open>push_front, on a non-empty chain\<close>
   (chain_h s l (x # xs) \<and>
    e \<notin> set (x # xs @ [l]) \<longrightarrow>
       chain_h (push_front_h s l e) l (e # x # xs) \<and>
       frame s (push_front_h s l e) (set (e # x # xs @ [l])) {l}) \<and>
   \<comment> \<open>push_back\<close>
   (chain_h s l xs \<and>
    e \<notin> set (xs @ [l]) \<and>
    get_prev s e = None \<longrightarrow>
       chain_h (push_back_h s l e) l (xs @ [e]) \<and>
       frame s (push_back_h s l e) (set (e # xs @ [l])) {l}) \<and>
   \<comment> \<open>insert\<close>
   (chain_h s l (P @ Q) \<and>
    e \<notin> set (P @ Q @ [l]) \<longrightarrow>
       (\<exists>s'. insert_h s l (Some (hd (Q @ [l]))) e = Some (s', Some e) \<and>
          chain_h s' l (P @ e # Q) \<and>
          frame s s' (set (e # P @ Q @ [l])) {l})) \<and>
   \<comment> \<open>pop_front, leaving a member\<close>
   (chain_h s l (x # y # xs) \<longrightarrow>
       chain_h (pop_front_h s l) l (y # xs) \<and>
       frame s (pop_front_h s l) (set (y # xs @ [l])) {l} \<and>
       get_prev (pop_front_h s l) x = get_prev s x \<and>
       get_next (pop_front_h s l) x = get_next s x) \<and>
   \<comment> \<open>pop_back\<close>
   (chain_h s l (xs @ [x]) \<longrightarrow>
       chain_h (pop_back_h s l) l xs \<and>
       frame s (pop_back_h s l) (set (xs @ [l])) {l} \<and>
       get_prev (pop_back_h s l) x = get_prev s x \<and>
       get_next (pop_back_h s l) x = get_next s x) \<and>
   \<comment> \<open>erase, leaving a member\<close>
   (chain_h s l (P @ x # Q) \<and>
    P @ Q \<noteq> [] \<longrightarrow>
       (\<exists>s'. erase_h s l (Some x) = Some (s', Some (hd (Q @ [l]))) \<and>
          chain_h s' l (P @ Q) \<and>
          frame s s' (set (P @ Q @ [l])) {l} \<and>
          get_prev s' x = get_prev s x \<and>
          get_next s' x = get_next s x)) \<and>
   \<comment> \<open>splice from another chain\<close>
   (chain_h s l (P @ Q) \<and>
    chain_h s d (A @ M @ C) \<and>
    M \<noteq> [] \<and>
    l \<noteq> d \<and> l \<notin> set (A @ M @ C) \<and> d \<notin> set (P @ Q) \<longrightarrow>
       (\<exists>s'. splice_h s l (Some (hd (Q @ [l]))) d (Some (hd M)) (Some (hd (C @ [d]))) = Some s' \<and>
          chain_h s' l (P @ M @ Q) \<and>
          chain_h s' d (A @ C) \<and>
          frame s s' (set (A @ M @ C @ [d] @ P @ Q @ [l])) {l, d})) \<and>
   \<comment> \<open>splice within the chain, to a later position\<close>
   (chain_h s l (A @ M @ C @ Q) \<and>
    M \<noteq> [] \<and>
    C \<noteq> [] \<longrightarrow>
       (\<exists>s'. splice_h s l (Some (hd (Q @ [l]))) l (Some (hd M)) (Some (hd C)) = Some s' \<and>
          chain_h s' l (A @ C @ M @ Q) \<and>
          frame s s' (set (A @ M @ C @ Q @ [l])) {l})) \<and>
   \<comment> \<open>splice within the chain, to an earlier position\<close>
   (chain_h s l (P @ B @ M @ C) \<and>
    M \<noteq> [] \<and>
    B \<noteq> [] \<longrightarrow>
       (\<exists>s'. splice_h s l (Some (hd B)) l (Some (hd M)) (Some (hd (C @ [l]))) = Some s' \<and>
          chain_h s' l (P @ M @ B @ C) \<and>
          frame s s' (set (P @ B @ M @ C @ [l])) {l})) \<and>
   \<comment> \<open>move assignment\<close>
   (chain_h s d ys \<and>
    l \<notin> set (ys @ [d]) \<longrightarrow>
       chain_h (move_assign_h s l d) l ys \<and>
       chain_h (move_assign_h s l d) d [] \<and>
       frame s (move_assign_h s l d) (set (ys @ [d, l])) {l, d}) \<and>
   \<comment> \<open>a chain away from the written nodes stays\<close>
   (frame s s' N L \<and>
    chain_h s m zs \<and>
    set (zs @ [m]) \<inter> N = {} \<and>
    m \<notin> L \<longrightarrow>
       chain_h s' m zs)"
proof -
  have U1:
    "chain_u t l xs \<and>
      e \<notin> set (xs @ [l]) \<longrightarrow>
       (\<exists>t'. push_front_u t l e = Some t' \<and>
          chain_u t' l (e # xs) \<and>
          frame t t' (set (e # xs @ [l])) {l})"
    using chain_u_push_front[of t l xs e] by auto
  have U2:
    "chain_u t l xs \<and>
      e \<notin> set (xs @ [l]) \<longrightarrow>
       (\<exists>t'. push_back_u t l e = Some t' \<and>
          chain_u t' l (xs @ [e]) \<and>
          frame t t' (set (e # xs @ [l])) {l})"
    using chain_u_push_back[of t l xs e] by auto
  have U3:
    "chain_u t l (P @ Q) \<and>
      e \<notin> set (P @ Q @ [l]) \<longrightarrow>
       (\<exists>t'. insert_u t l (Some (hd (Q @ [l]))) e = Some (t', Some e) \<and>
          chain_u t' l (P @ e # Q) \<and>
          frame t t' (set (e # P @ Q @ [l])) {l})"
    using chain_u_insert[of t l P Q e] by auto
  have U4:
    "chain_u t l (x # xs) \<longrightarrow>
       (\<exists>t'. pop_front_u t l = Some t' \<and>
          chain_u t' l xs \<and>
          frame t t' (set (xs @ [l])) {l} \<and>
          get_prev t' x = get_prev t x \<and>
          get_next t' x = get_next t x)"
  proof
    assume c: "chain_u t l (x # xs)"
    then have x: "x \<notin> set (xs @ [l])" by (simp add: chain_u_def)
    from chain_u_pop_front[OF c] obtain t' where
      t': "pop_front_u t l = Some t'" "chain_u t' l xs" "frame t t' (set (xs @ [l])) {l}"
      by blast
    from t' frame_keeps[OF t'(3) x]
    show "(\<exists>t'. pop_front_u t l = Some t' \<and>
             chain_u t' l xs \<and>
             frame t t' (set (xs @ [l])) {l} \<and>
             get_prev t' x = get_prev t x \<and>
             get_next t' x = get_next t x)"
      by blast
  qed
  have U5:
    "chain_u t l (xs @ [x]) \<longrightarrow>
       (\<exists>t'. pop_back_u t l = Some t' \<and>
          chain_u t' l xs \<and>
          frame t t' (set (xs @ [l])) {l} \<and>
          get_prev t' x = get_prev t x \<and>
          get_next t' x = get_next t x)"
  proof
    assume c: "chain_u t l (xs @ [x])"
    then have x: "x \<notin> set (xs @ [l])" by (simp add: chain_u_def)
    from chain_u_pop_back[OF c] obtain t' where
      t': "pop_back_u t l = Some t'" "chain_u t' l xs" "frame t t' (set (xs @ [l])) {l}"
      by blast
    from t' frame_keeps[OF t'(3) x]
    show "(\<exists>t'. pop_back_u t l = Some t' \<and>
             chain_u t' l xs \<and>
             frame t t' (set (xs @ [l])) {l} \<and>
             get_prev t' x = get_prev t x \<and>
             get_next t' x = get_next t x)"
      by blast
  qed
  have U6:
    "chain_u t l (P @ x # Q) \<longrightarrow>
       (\<exists>t'. erase_u t l (Some x) = Some (t', Some (hd (Q @ [l]))) \<and>
          chain_u t' l (P @ Q) \<and>
          frame t t' (set (P @ Q @ [l])) {l} \<and>
          get_prev t' x = get_prev t x \<and>
          get_next t' x = get_next t x)"
  proof
    assume c: "chain_u t l (P @ x # Q)"
    then have x: "x \<notin> set (P @ Q @ [l])" by (simp add: chain_u_def)
    from chain_u_erase[OF c] obtain t' where
      t': "erase_u t l (Some x) = Some (t', Some (hd (Q @ [l])))" "chain_u t' l (P @ Q)"
        "frame t t' (set (P @ Q @ [l])) {l}"
      by blast
    from t' frame_keeps[OF t'(3) x]
    show "(\<exists>t'. erase_u t l (Some x) = Some (t', Some (hd (Q @ [l]))) \<and>
             chain_u t' l (P @ Q) \<and>
             frame t t' (set (P @ Q @ [l])) {l} \<and>
             get_prev t' x = get_prev t x \<and>
             get_next t' x = get_next t x)"
      by blast
  qed
  have U7:
    "chain_u t l (P @ Q) \<and>
      chain_u t d (A @ M @ C) \<and>
      M \<noteq> [] \<and>
      l \<noteq> d \<and> l \<notin> set (A @ M @ C) \<and> d \<notin> set (P @ Q) \<longrightarrow>
       (\<exists>t'. splice_u t l (Some (hd (Q @ [l]))) d (Some (hd M)) (Some (hd (C @ [d]))) = Some t' \<and>
          chain_u t' l (P @ M @ Q) \<and>
          chain_u t' d (A @ C) \<and>
          frame t t' (set (A @ M @ C @ [d] @ P @ Q @ [l])) {l, d})"
    using chain_u_splice[of t l P Q d A M C] chains_distinct_u[of t l "P @ Q" d "A @ M @ C"]
    by auto
  have U8:
    "chain_u t l (A @ M @ C @ Q) \<and>
      M \<noteq> [] \<and>
      C \<noteq> [] \<longrightarrow>
       (\<exists>t'. splice_u t l (Some (hd (Q @ [l]))) l (Some (hd M)) (Some (hd C)) = Some t' \<and>
          chain_u t' l (A @ C @ M @ Q) \<and>
          frame t t' (set (A @ M @ C @ Q @ [l])) {l})"
    using chain_u_splice_after[of t l A M C Q] by blast
  have U9:
    "chain_u t l (P @ B @ M @ C) \<and>
      M \<noteq> [] \<and>
      B \<noteq> [] \<longrightarrow>
       (\<exists>t'. splice_u t l (Some (hd B)) l (Some (hd M)) (Some (hd (C @ [l]))) = Some t' \<and>
          chain_u t' l (P @ M @ B @ C) \<and>
          frame t t' (set (P @ B @ M @ C @ [l])) {l})"
    using chain_u_splice_before[of t l P B M C] by blast
  have U10:
    "chain_u t d ys \<and>
      l \<notin> set (ys @ [d]) \<longrightarrow>
       (\<exists>t'. move_assign_u t l d = Some t' \<and>
          chain_u t' l ys \<and>
          chain_u t' d [] \<and>
          frame t t' (set (ys @ [d, l])) {l, d})"
    using move_assign_u_frame[of t d ys l] by blast
  have U11:
    "frame t t' N L \<and>
      chain_u t m zs \<and>
      set (zs @ [m]) \<inter> N = {} \<and>
      m \<notin> L \<longrightarrow>
       chain_u t' m zs"
    using frame_chain_u[of t "t'" N L m zs] by blast
  have H1:
    "chain_h s l (x # xs) \<and>
      e \<notin> set (x # xs @ [l]) \<longrightarrow>
       chain_h (push_front_h s l e) l (e # x # xs) \<and>
       frame s (push_front_h s l e) (set (e # x # xs @ [l])) {l}"
    using chain_h_push_front[of s l x xs e] by auto
  have H2:
    "chain_h s l xs \<and>
      e \<notin> set (xs @ [l]) \<and>
      get_prev s e = None \<longrightarrow>
       chain_h (push_back_h s l e) l (xs @ [e]) \<and>
       frame s (push_back_h s l e) (set (e # xs @ [l])) {l}"
    using chain_h_push_back[of s l xs e] by auto
  have H3:
    "chain_h s l (P @ Q) \<and>
      e \<notin> set (P @ Q @ [l]) \<longrightarrow>
       (\<exists>s'. insert_h s l (Some (hd (Q @ [l]))) e = Some (s', Some e) \<and>
          chain_h s' l (P @ e # Q) \<and>
          frame s s' (set (e # P @ Q @ [l])) {l})"
    using chain_h_insert[of s l P Q e] by auto
  have H4:
    "chain_h s l (x # y # xs) \<longrightarrow>
       chain_h (pop_front_h s l) l (y # xs) \<and>
       frame s (pop_front_h s l) (set (y # xs @ [l])) {l} \<and>
       get_prev (pop_front_h s l) x = get_prev s x \<and>
       get_next (pop_front_h s l) x = get_next s x"
  proof
    assume c: "chain_h s l (x # y # xs)"
    then have x: "x \<notin> set (y # xs @ [l])" by (simp add: chain_h_def)
    from chain_h_pop_front[OF c]
      frame_keeps[of s "pop_front_h s l" "set (y # xs @ [l])" "{l}" x] x
    show "chain_h (pop_front_h s l) l (y # xs) \<and>
          frame s (pop_front_h s l) (set (y # xs @ [l])) {l} \<and>
          get_prev (pop_front_h s l) x = get_prev s x \<and>
          get_next (pop_front_h s l) x = get_next s x"
      by blast
  qed
  have H5:
    "chain_h s l (xs @ [x]) \<longrightarrow>
       chain_h (pop_back_h s l) l xs \<and>
       frame s (pop_back_h s l) (set (xs @ [l])) {l} \<and>
       get_prev (pop_back_h s l) x = get_prev s x \<and>
       get_next (pop_back_h s l) x = get_next s x"
  proof
    assume c: "chain_h s l (xs @ [x])"
    then have x: "x \<notin> set (xs @ [l])" by (simp add: chain_h_def)
    from chain_h_pop_back[OF c]
      frame_keeps[of s "pop_back_h s l" "set (xs @ [l])" "{l}" x] x
    show "chain_h (pop_back_h s l) l xs \<and>
          frame s (pop_back_h s l) (set (xs @ [l])) {l} \<and>
          get_prev (pop_back_h s l) x = get_prev s x \<and>
          get_next (pop_back_h s l) x = get_next s x"
      by blast
  qed
  have H6:
    "chain_h s l (P @ x # Q) \<and>
      P @ Q \<noteq> [] \<longrightarrow>
       (\<exists>s'. erase_h s l (Some x) = Some (s', Some (hd (Q @ [l]))) \<and>
          chain_h s' l (P @ Q) \<and>
          frame s s' (set (P @ Q @ [l])) {l} \<and>
          get_prev s' x = get_prev s x \<and>
          get_next s' x = get_next s x)"
  proof
    assume c: "chain_h s l (P @ x # Q) \<and>
       P @ Q \<noteq> []"
    then have x: "x \<notin> set (P @ Q @ [l])" by (simp add: chain_h_def)
    from chain_h_erase[of s l P x Q] c obtain s' where
      s': "erase_h s l (Some x) = Some (s', Some (hd (Q @ [l])))" "chain_h s' l (P @ Q)"
        "frame s s' (set (P @ Q @ [l])) {l}"
      by blast
    from s' frame_keeps[OF s'(3) x]
    show "(\<exists>s'. erase_h s l (Some x) = Some (s', Some (hd (Q @ [l]))) \<and>
             chain_h s' l (P @ Q) \<and>
             frame s s' (set (P @ Q @ [l])) {l} \<and>
             get_prev s' x = get_prev s x \<and>
             get_next s' x = get_next s x)"
      by blast
  qed
  have H7:
    "chain_h s l (P @ Q) \<and>
      chain_h s d (A @ M @ C) \<and>
      M \<noteq> [] \<and>
      l \<noteq> d \<and> l \<notin> set (A @ M @ C) \<and> d \<notin> set (P @ Q) \<longrightarrow>
       (\<exists>s'. splice_h s l (Some (hd (Q @ [l]))) d (Some (hd M)) (Some (hd (C @ [d]))) = Some s' \<and>
          chain_h s' l (P @ M @ Q) \<and>
          chain_h s' d (A @ C) \<and>
          frame s s' (set (A @ M @ C @ [d] @ P @ Q @ [l])) {l, d})"
    using chain_h_splice[of s l P Q d A M C] chains_distinct_h[of s l "P @ Q" d "A @ M @ C"]
    by auto
  have H8:
    "chain_h s l (A @ M @ C @ Q) \<and>
      M \<noteq> [] \<and>
      C \<noteq> [] \<longrightarrow>
       (\<exists>s'. splice_h s l (Some (hd (Q @ [l]))) l (Some (hd M)) (Some (hd C)) = Some s' \<and>
          chain_h s' l (A @ C @ M @ Q) \<and>
          frame s s' (set (A @ M @ C @ Q @ [l])) {l})"
    using chain_h_splice_after[of s l A M C Q] by blast
  have H9:
    "chain_h s l (P @ B @ M @ C) \<and>
      M \<noteq> [] \<and>
      B \<noteq> [] \<longrightarrow>
       (\<exists>s'. splice_h s l (Some (hd B)) l (Some (hd M)) (Some (hd (C @ [l]))) = Some s' \<and>
          chain_h s' l (P @ M @ B @ C) \<and>
          frame s s' (set (P @ B @ M @ C @ [l])) {l})"
    using chain_h_splice_before[of s l P B M C] by blast
  have H10:
    "chain_h s d ys \<and>
      l \<notin> set (ys @ [d]) \<longrightarrow>
       chain_h (move_assign_h s l d) l ys \<and>
       chain_h (move_assign_h s l d) d [] \<and>
       frame s (move_assign_h s l d) (set (ys @ [d, l])) {l, d}"
    using move_assign_h_chain[of s d ys l] move_assign_h_frame[of s d ys l] by blast
  have H11:
    "frame s s' N L \<and>
      chain_h s m zs \<and>
      set (zs @ [m]) \<inter> N = {} \<and>
      m \<notin> L \<longrightarrow>
       chain_h s' m zs"
    using frame_chain_h[of s "s'" N L m zs] by blast
  show ?thesis
    by (intro conjI) (rule U1 U2 U3 U4 U5 U6 U7 U8 U9 U10 U11 H1 H2 H3 H4 H5 H6 H7 H8 H9 H10 H11)+
qed


lemma chain_operations_keep_chains_witness:
  "chain_h two_lists_h 0 [1, 2, 3] \<and>
   chain_h two_lists_h 10 [11, 12, 13] \<and>
   get_prev two_lists_h 20 = None \<and>
   chain_h (push_front_h two_lists_h 0 20) 0 [20, 1, 2, 3] \<and>
   chain_h (push_back_h two_lists_h 0 20) 0 [1, 2, 3, 20] \<and>
   (\<exists>s'. insert_h two_lists_h 0 (Some 2) 20 = Some (s', Some 20) \<and> chain_h s' 0 [1, 20, 2, 3]) \<and>
   chain_h (pop_front_h two_lists_h 0) 0 [2, 3] \<and>
   chain_h (pop_back_h two_lists_h 0) 0 [1, 2] \<and>
   get_prev (pop_back_h two_lists_h 0) 3 = get_prev two_lists_h 3 \<and>
   (\<exists>s'. erase_h two_lists_h 0 (Some 2) = Some (s', Some 3) \<and> chain_h s' 0 [1, 3]) \<and>
   (\<exists>s'. splice_h two_lists_h 0 (Some 2) 10 (Some 12) (Some 13) = Some s' \<and>
          chain_h s' 0 [1, 12, 2, 3] \<and> chain_h s' 10 [11, 13]) \<and>
   (\<exists>s'. splice_h two_lists_h 0 (Some 3) 0 (Some 1) (Some 2) = Some s' \<and> chain_h s' 0 [2, 1, 3]) \<and>
   (\<exists>s'. splice_h two_lists_h 0 (Some 1) 0 (Some 2) (Some 3) = Some s' \<and> chain_h s' 0 [2, 1, 3]) \<and>
   chain_h (move_assign_h two_lists_h 0 10) 0 [11, 12, 13] \<and>
   chain_h (move_assign_h two_lists_h 0 10) 10 [] \<and>
   chain_h (pop_back_h two_lists_h 0) 10 [11, 12, 13] \<and>
   (\<exists>t. two_lists_u = Some t \<and>
        chain_u t 0 [1, 2, 3] \<and>
        chain_u t 10 [11, 12, 13] \<and>
        (\<exists>t'. push_front_u t 0 20 = Some t' \<and> chain_u t' 0 [20, 1, 2, 3]) \<and>
        (\<exists>t'. push_back_u t 0 20 = Some t' \<and> chain_u t' 0 [1, 2, 3, 20]) \<and>
        (\<exists>t'. insert_u t 0 (Some 2) 20 = Some (t', Some 20) \<and> chain_u t' 0 [1, 20, 2, 3]) \<and>
        (\<exists>t'. pop_front_u t 0 = Some t' \<and> chain_u t' 0 [2, 3]) \<and>
        (\<exists>t'. pop_back_u t 0 = Some t' \<and> chain_u t' 0 [1, 2] \<and> get_prev t' 3 = get_prev t 3 \<and>
          chain_u t' 10 [11, 12, 13]) \<and>
        (\<exists>t'. erase_u t 0 (Some 2) = Some (t', Some 3) \<and> chain_u t' 0 [1, 3]) \<and>
        (\<exists>t'. splice_u t 0 (Some 2) 10 (Some 12) (Some 13) = Some t' \<and>
          chain_u t' 0 [1, 12, 2, 3] \<and> chain_u t' 10 [11, 13]) \<and>
        (\<exists>t'. splice_u t 0 (Some 3) 0 (Some 1) (Some 2) = Some t' \<and> chain_u t' 0 [2, 1, 3]) \<and>
        (\<exists>t'. splice_u t 0 (Some 1) 0 (Some 2) (Some 3) = Some t' \<and> chain_u t' 0 [2, 1, 3]) \<and>
        (\<exists>t'. move_assign_u t 0 10 = Some t' \<and> chain_u t' 0 [11, 12, 13] \<and> chain_u t' 10 []))"
proof -
  have h: "chain_h two_lists_h 0 [1, 2, 3]" "chain_h two_lists_h 10 [11, 12, 13]"
    "get_prev two_lists_h 20 = None"
    by (simp_all add: two_lists_h_def chain_h_def build_h_def push_back_h_def list_h_def Let_def)
  obtain t where t: "two_lists_u = Some t" "chain_u t 0 [1, 2, 3]" "chain_u t 10 [11, 12, 13]"
    by (simp add: two_lists_u_def chain_u_def build_u_def push_back_u_def insert_u_def
        end_u_def list_u_def Let_def)
  have H1:
    "chain_h (push_front_h two_lists_h 0 20) 0 [20, 1, 2, 3]"
    using chain_operations_keep_chains
        [where s = two_lists_h and t = t and l = 0 and d = 10 and e = 20 and x = 1 and xs = "[2, 3]",
         THEN conjunct2, THEN conjunct2, THEN conjunct2, THEN conjunct2, THEN conjunct2, THEN conjunct2, THEN conjunct2, THEN conjunct2, THEN conjunct2, THEN conjunct2, THEN conjunct2, THEN conjunct1]
      h
    by simp
  have H2:
    "chain_h (push_back_h two_lists_h 0 20) 0 [1, 2, 3, 20]"
    using chain_operations_keep_chains
        [where s = two_lists_h and t = t and l = 0 and d = 10 and e = 20 and xs = "[1, 2, 3]",
         THEN conjunct2, THEN conjunct2, THEN conjunct2, THEN conjunct2, THEN conjunct2, THEN conjunct2, THEN conjunct2, THEN conjunct2, THEN conjunct2, THEN conjunct2, THEN conjunct2, THEN conjunct2, THEN conjunct1]
      h
    by simp
  have H3:
    "\<exists>s'. insert_h two_lists_h 0 (Some 2) 20 = Some (s', Some 20) \<and> chain_h s' 0 [1, 20, 2, 3]"
    using chain_operations_keep_chains
        [where s = two_lists_h and t = t and l = 0 and d = 10 and e = 20 and P = "[1]" and Q = "[2, 3]",
         THEN conjunct2, THEN conjunct2, THEN conjunct2, THEN conjunct2, THEN conjunct2, THEN conjunct2, THEN conjunct2, THEN conjunct2, THEN conjunct2, THEN conjunct2, THEN conjunct2, THEN conjunct2, THEN conjunct2, THEN conjunct1]
      h
    by simp blast
  have H4:
    "chain_h (pop_front_h two_lists_h 0) 0 [2, 3]"
    using chain_operations_keep_chains
        [where s = two_lists_h and t = t and l = 0 and d = 10 and e = 20 and x = 1 and y = 2 and xs = "[3]",
         THEN conjunct2, THEN conjunct2, THEN conjunct2, THEN conjunct2, THEN conjunct2, THEN conjunct2, THEN conjunct2, THEN conjunct2, THEN conjunct2, THEN conjunct2, THEN conjunct2, THEN conjunct2, THEN conjunct2, THEN conjunct2, THEN conjunct1]
      h
    by simp
  have H5':
    "chain_h (pop_back_h two_lists_h 0) 0 [1, 2] \<and>
     get_prev (pop_back_h two_lists_h 0) 3 = get_prev two_lists_h 3 \<and>
     frame two_lists_h (pop_back_h two_lists_h 0) (set ([1, 2] @ [0])) {0}"
    using chain_operations_keep_chains
        [where s = two_lists_h and t = t and l = 0 and d = 10 and e = 20 and x = 3 and xs = "[1, 2]",
         THEN conjunct2, THEN conjunct2, THEN conjunct2, THEN conjunct2, THEN conjunct2, THEN conjunct2, THEN conjunct2, THEN conjunct2, THEN conjunct2, THEN conjunct2, THEN conjunct2, THEN conjunct2, THEN conjunct2, THEN conjunct2, THEN conjunct2, THEN conjunct1]
      h
    by simp
  have H5: "chain_h (pop_back_h two_lists_h 0) 0 [1, 2]"
    and H5k: "get_prev (pop_back_h two_lists_h 0) 3 = get_prev two_lists_h 3"
    using H5' by simp_all
  have H6:
    "\<exists>s'. erase_h two_lists_h 0 (Some 2) = Some (s', Some 3) \<and> chain_h s' 0 [1, 3]"
    using chain_operations_keep_chains
        [where s = two_lists_h and t = t and l = 0 and d = 10 and e = 20 and P = "[1]" and x = 2 and Q = "[3]",
         THEN conjunct2, THEN conjunct2, THEN conjunct2, THEN conjunct2, THEN conjunct2, THEN conjunct2, THEN conjunct2, THEN conjunct2, THEN conjunct2, THEN conjunct2, THEN conjunct2, THEN conjunct2, THEN conjunct2, THEN conjunct2, THEN conjunct2, THEN conjunct2, THEN conjunct1]
      h
    by simp blast
  have H7:
    "\<exists>s'. splice_h two_lists_h 0 (Some 2) 10 (Some 12) (Some 13) = Some s' \<and>
          chain_h s' 0 [1, 12, 2, 3] \<and> chain_h s' 10 [11, 13]"
    using chain_operations_keep_chains
        [where s = two_lists_h and t = t and l = 0 and d = 10 and e = 20 and P = "[1]" and Q = "[2, 3]" and A = "[11]" and M = "[12]" and C = "[13]",
         THEN conjunct2, THEN conjunct2, THEN conjunct2, THEN conjunct2, THEN conjunct2, THEN conjunct2, THEN conjunct2, THEN conjunct2, THEN conjunct2, THEN conjunct2, THEN conjunct2, THEN conjunct2, THEN conjunct2, THEN conjunct2, THEN conjunct2, THEN conjunct2, THEN conjunct2, THEN conjunct1]
      h
    by simp blast
  have H8:
    "\<exists>s'. splice_h two_lists_h 0 (Some 3) 0 (Some 1) (Some 2) = Some s' \<and> chain_h s' 0 [2, 1, 3]"
    using chain_operations_keep_chains
        [where s = two_lists_h and t = t and l = 0 and d = 10 and e = 20 and A = "[]" and M = "[1]" and C = "[2]" and Q = "[3]",
         THEN conjunct2, THEN conjunct2, THEN conjunct2, THEN conjunct2, THEN conjunct2, THEN conjunct2, THEN conjunct2, THEN conjunct2, THEN conjunct2, THEN conjunct2, THEN conjunct2, THEN conjunct2, THEN conjunct2, THEN conjunct2, THEN conjunct2, THEN conjunct2, THEN conjunct2, THEN conjunct2, THEN conjunct1]
      h
    by simp blast
  have H9:
    "\<exists>s'. splice_h two_lists_h 0 (Some 1) 0 (Some 2) (Some 3) = Some s' \<and> chain_h s' 0 [2, 1, 3]"
    using chain_operations_keep_chains
        [where s = two_lists_h and t = t and l = 0 and d = 10 and e = 20 and P = "[]" and B = "[1]" and M = "[2]" and C = "[3]",
         THEN conjunct2, THEN conjunct2, THEN conjunct2, THEN conjunct2, THEN conjunct2, THEN conjunct2, THEN conjunct2, THEN conjunct2, THEN conjunct2, THEN conjunct2, THEN conjunct2, THEN conjunct2, THEN conjunct2, THEN conjunct2, THEN conjunct2, THEN conjunct2, THEN conjunct2, THEN conjunct2, THEN conjunct2, THEN conjunct1]
      h
    by simp blast
  have H10: "chain_h (move_assign_h two_lists_h 0 10) 0 [11, 12, 13]"
    and H10e: "chain_h (move_assign_h two_lists_h 0 10) 10 []"
    using chain_operations_keep_chains
        [where s = two_lists_h and t = t and l = 0 and d = 10 and e = 20 and ys = "[11, 12, 13]",
         THEN conjunct2, THEN conjunct2, THEN conjunct2, THEN conjunct2, THEN conjunct2, THEN conjunct2, THEN conjunct2, THEN conjunct2, THEN conjunct2, THEN conjunct2, THEN conjunct2, THEN conjunct2, THEN conjunct2, THEN conjunct2, THEN conjunct2, THEN conjunct2, THEN conjunct2, THEN conjunct2, THEN conjunct2, THEN conjunct2, THEN conjunct1]
      h
    by simp_all
  have H11: "chain_h (pop_back_h two_lists_h 0) 10 [11, 12, 13]"
    using chain_operations_keep_chains
        [where s = two_lists_h and t = t and l = 0 and d = 10 and e = 20 and s' = "pop_back_h two_lists_h 0" and N = "set ([1, 2] @ [0])" and L = "{0}" and m = 10 and
          zs = "[11, 12, 13]",
         THEN conjunct2, THEN conjunct2, THEN conjunct2, THEN conjunct2, THEN conjunct2, THEN conjunct2, THEN conjunct2, THEN conjunct2, THEN conjunct2, THEN conjunct2, THEN conjunct2, THEN conjunct2, THEN conjunct2, THEN conjunct2, THEN conjunct2, THEN conjunct2, THEN conjunct2, THEN conjunct2, THEN conjunct2, THEN conjunct2, THEN conjunct2]
      H5' h
    by simp
  have U1:
    "\<exists>t'. push_front_u t 0 20 = Some t' \<and> chain_u t' 0 [20, 1, 2, 3]"
    using chain_operations_keep_chains
        [where s = two_lists_h and t = t and l = 0 and d = 10 and e = 20 and xs = "[1, 2, 3]",
         THEN conjunct1]
      t
    by simp blast
  have U2:
    "\<exists>t'. push_back_u t 0 20 = Some t' \<and> chain_u t' 0 [1, 2, 3, 20]"
    using chain_operations_keep_chains
        [where s = two_lists_h and t = t and l = 0 and d = 10 and e = 20 and xs = "[1, 2, 3]",
         THEN conjunct2, THEN conjunct1]
      t
    by simp blast
  have U3:
    "\<exists>t'. insert_u t 0 (Some 2) 20 = Some (t', Some 20) \<and> chain_u t' 0 [1, 20, 2, 3]"
    using chain_operations_keep_chains
        [where s = two_lists_h and t = t and l = 0 and d = 10 and e = 20 and P = "[1]" and Q = "[2, 3]",
         THEN conjunct2, THEN conjunct2, THEN conjunct1]
      t
    by simp blast
  have U4:
    "\<exists>t'. pop_front_u t 0 = Some t' \<and> chain_u t' 0 [2, 3]"
    using chain_operations_keep_chains
        [where s = two_lists_h and t = t and l = 0 and d = 10 and e = 20 and x = 1 and xs = "[2, 3]",
         THEN conjunct2, THEN conjunct2, THEN conjunct2, THEN conjunct1]
      t
    by simp blast
  have U5:
    "\<exists>t'. pop_back_u t 0 = Some t' \<and> chain_u t' 0 [1, 2] \<and> get_prev t' 3 = get_prev t 3 \<and>
          chain_u t' 10 [11, 12, 13]"
  proof -
    from chain_operations_keep_chains
        [where s = two_lists_h and t = t and l = 0 and d = 10 and e = 20 and x = 3 and xs = "[1, 2]",
         THEN conjunct2, THEN conjunct2, THEN conjunct2, THEN conjunct2, THEN conjunct1]
      t
    obtain t' where t': "pop_back_u t 0 = Some t'" "chain_u t' 0 [1, 2]"
      "frame t t' (set ([1, 2] @ [0])) {0}" "get_prev t' 3 = get_prev t 3"
      by auto
    from chain_operations_keep_chains
        [where s = two_lists_h and t = t and l = 0 and d = 10 and e = 20 and t' = t' and N = "set ([1, 2] @ [0])" and L = "{0}" and m = 10 and
          zs = "[11, 12, 13]",
         THEN conjunct2, THEN conjunct2, THEN conjunct2, THEN conjunct2, THEN conjunct2, THEN conjunct2, THEN conjunct2, THEN conjunct2, THEN conjunct2, THEN conjunct2, THEN conjunct1]
      t'(3) t(3)
    have "chain_u t' 10 [11, 12, 13]" by simp
    with t' show ?thesis by blast
  qed
  have U6:
    "\<exists>t'. erase_u t 0 (Some 2) = Some (t', Some 3) \<and> chain_u t' 0 [1, 3]"
    using chain_operations_keep_chains
        [where s = two_lists_h and t = t and l = 0 and d = 10 and e = 20 and P = "[1]" and x = 2 and Q = "[3]",
         THEN conjunct2, THEN conjunct2, THEN conjunct2, THEN conjunct2, THEN conjunct2, THEN conjunct1]
      t
    by simp blast
  have U7:
    "\<exists>t'. splice_u t 0 (Some 2) 10 (Some 12) (Some 13) = Some t' \<and>
          chain_u t' 0 [1, 12, 2, 3] \<and> chain_u t' 10 [11, 13]"
    using chain_operations_keep_chains
        [where s = two_lists_h and t = t and l = 0 and d = 10 and e = 20 and P = "[1]" and Q = "[2, 3]" and A = "[11]" and M = "[12]" and C = "[13]",
         THEN conjunct2, THEN conjunct2, THEN conjunct2, THEN conjunct2, THEN conjunct2, THEN conjunct2, THEN conjunct1]
      t
    by simp blast
  have U8:
    "\<exists>t'. splice_u t 0 (Some 3) 0 (Some 1) (Some 2) = Some t' \<and> chain_u t' 0 [2, 1, 3]"
    using chain_operations_keep_chains
        [where s = two_lists_h and t = t and l = 0 and d = 10 and e = 20 and A = "[]" and M = "[1]" and C = "[2]" and Q = "[3]",
         THEN conjunct2, THEN conjunct2, THEN conjunct2, THEN conjunct2, THEN conjunct2, THEN conjunct2, THEN conjunct2, THEN conjunct1]
      t
    by simp blast
  have U9:
    "\<exists>t'. splice_u t 0 (Some 1) 0 (Some 2) (Some 3) = Some t' \<and> chain_u t' 0 [2, 1, 3]"
    using chain_operations_keep_chains
        [where s = two_lists_h and t = t and l = 0 and d = 10 and e = 20 and P = "[]" and B = "[1]" and M = "[2]" and C = "[3]",
         THEN conjunct2, THEN conjunct2, THEN conjunct2, THEN conjunct2, THEN conjunct2, THEN conjunct2, THEN conjunct2, THEN conjunct2, THEN conjunct1]
      t
    by simp blast
  have U10:
    "\<exists>t'. move_assign_u t 0 10 = Some t' \<and> chain_u t' 0 [11, 12, 13] \<and> chain_u t' 10 []"
    using chain_operations_keep_chains
        [where s = two_lists_h and t = t and l = 0 and d = 10 and e = 20 and ys = "[11, 12, 13]",
         THEN conjunct2, THEN conjunct2, THEN conjunct2, THEN conjunct2, THEN conjunct2, THEN conjunct2, THEN conjunct2, THEN conjunct2, THEN conjunct2, THEN conjunct1]
      t
    by simp blast
  have Up:
    "\<exists>t. two_lists_u = Some t \<and>
        chain_u t 0 [1, 2, 3] \<and>
        chain_u t 10 [11, 12, 13] \<and>
        (\<exists>t'. push_front_u t 0 20 = Some t' \<and> chain_u t' 0 [20, 1, 2, 3]) \<and>
        (\<exists>t'. push_back_u t 0 20 = Some t' \<and> chain_u t' 0 [1, 2, 3, 20]) \<and>
        (\<exists>t'. insert_u t 0 (Some 2) 20 = Some (t', Some 20) \<and> chain_u t' 0 [1, 20, 2, 3]) \<and>
        (\<exists>t'. pop_front_u t 0 = Some t' \<and> chain_u t' 0 [2, 3]) \<and>
        (\<exists>t'. pop_back_u t 0 = Some t' \<and> chain_u t' 0 [1, 2] \<and> get_prev t' 3 = get_prev t 3 \<and>
          chain_u t' 10 [11, 12, 13]) \<and>
        (\<exists>t'. erase_u t 0 (Some 2) = Some (t', Some 3) \<and> chain_u t' 0 [1, 3]) \<and>
        (\<exists>t'. splice_u t 0 (Some 2) 10 (Some 12) (Some 13) = Some t' \<and>
          chain_u t' 0 [1, 12, 2, 3] \<and> chain_u t' 10 [11, 13]) \<and>
        (\<exists>t'. splice_u t 0 (Some 3) 0 (Some 1) (Some 2) = Some t' \<and> chain_u t' 0 [2, 1, 3]) \<and>
        (\<exists>t'. splice_u t 0 (Some 1) 0 (Some 2) (Some 3) = Some t' \<and> chain_u t' 0 [2, 1, 3]) \<and>
        (\<exists>t'. move_assign_u t 0 10 = Some t' \<and> chain_u t' 0 [11, 12, 13] \<and> chain_u t' 10 [])"
    by (rule exI[of _ t], intro conjI) (rule t U1 U2 U3 U4 U5 U6 U7 U8 U9 U10)+
  show ?thesis
    by (intro conjI) (rule h H1 H2 H3 H4 H5 H5k H6 H7 H8 H9 H10 H10e H11 Up)+
qed


text \<open>
  Claim C5. Every operation should leave every link either fully detached or a consistent
  member of one chain, and a removed element fully detached. The code does not:
  \<^item> in both files the element removed by \<open>pop_back\<close> from the list 1, 2 is no longer met
    by an iteration and still has \<open>prev\<close> pointing to element 1 and \<open>next\<close> pointing to
    \<open>after_last\<close>;
  \<^item> these links are used later: after \<open>pop_back\<close> of element 3 from 1, 2, 3 and
    \<open>push_back\<close> of element 4 the list holds 1, 2, 4, and the destructor of the removed
    element 3 makes it hold 1, 2;
  \<^item> in both files \<open>splice\<close> within the list 1, 2, 3 of the range from 1 up to 3 to the
    position of 3 leaves the list holding 3 only;
  \<^item> in \<^verbatim>\<open>src/intrusive_list.h\<close>, \<open>push_front\<close> on a new list leaves the element, which
    \<open>first\<close> and \<open>after_last.prev\<close> point to, with a null \<open>next\<close>, and \<open>pop_front\<close> and
    \<open>erase\<close> of the only member leave \<open>first\<close> pointing to \<open>after_last\<close>, so that
    \<open>empty()\<close> is false.
\<close>

theorem chain_invariant_broken:
  "\<comment> \<open>a popped element keeps its links\<close>
   (\<lambda>s. (to_list_h (Suc (Suc 0)) s 0, get_prev s 2, get_next s 2))
     (pop_back_h (build_h null_store 0 [1, 2]) 0) = (Some [1], Some 1, Some 0) \<and>
   map_option (\<lambda>s. (to_list_u (Suc (Suc 0)) s 0, get_prev s 2, get_next s 2))
     (Option.bind (build_u null_store 0 [1, 2]) (\<lambda>s. pop_back_u s 0))
     = Some (Some [1], Some 1, Some 0) \<and>
   \<comment> \<open>its destructor then cuts a later member off\<close>
   (\<lambda>s. (to_list_h (Suc (Suc (Suc (Suc 0)))) s 0,
          to_list_h (Suc (Suc (Suc (Suc 0)))) (destroy_h s 3) 0))
     (push_back_h (pop_back_h (build_h null_store 0 [1, 2, 3]) 0) 0 4)
     = (Some [1, 2, 4], Some [1, 2]) \<and>
   map_option
     (\<lambda>s. (to_list_u (Suc (Suc (Suc (Suc 0)))) s 0,
           to_list_u (Suc (Suc (Suc (Suc 0)))) (destroy_u s 3) 0))
     (Option.bind (Option.bind (build_u null_store 0 [1, 2, 3]) (\<lambda>s. pop_back_u s 0))
        (\<lambda>s. push_back_u s 0 4))
     = Some (Some [1, 2, 4], Some [1, 2]) \<and>
   \<comment> \<open>a splice within the chain to the end of the moved range loses the range\<close>
   map_option (\<lambda>s. to_list_h (Suc (Suc (Suc (Suc 0)))) s 0)
     (splice_h (build_h null_store 0 [1, 2, 3]) 0 (Some 3) 0 (Some 1) (Some 3))
     = Some (Some [3]) \<and>
   map_option (\<lambda>s. to_list_u (Suc (Suc (Suc (Suc 0)))) s 0)
     (Option.bind (build_u null_store 0 [1, 2, 3])
        (\<lambda>s. splice_u s 0 (Some 3) 0 (Some 1) (Some 3)))
     = Some (Some [3]) \<and>
   \<comment> \<open>\<open>src/intrusive_list.h\<close>: push_front on a new list, pop_front and erase of the only member\<close>
   (\<lambda>s. (get_first s 0, get_prev s 0, get_prev s 1, get_next s 1))
     (push_front_h (list_h null_store 0) 0 1) = (Some 1, Some 1, None, None) \<and>
   (\<lambda>s. (get_first s 0, empty_h s 0)) (pop_front_h (build_h null_store 0 [1]) 0)
     = (Some 0, False) \<and>
   map_option (\<lambda>(s, r). (get_first s 0, empty_h s 0))
     (erase_h (build_h null_store 0 [1]) 0 (Some 1)) = Some (Some 0, False)"
  by (simp add: build_h_def build_u_def push_back_h_def push_back_u_def pop_back_h_def
      pop_back_u_def pop_front_h_def push_front_h_def insert_u_def erase_u_def erase_h_def
      splice_h_def splice_u_def list_h_def list_u_def end_u_def end_h_def begin_h_def
      begin_u_def to_list_h_def to_list_u_def deref_def inc_h_def inc_u_def destroy_h_def
      destroy_u_def unlink_h_def unlink_u_def empty_h_def clear_h_def Let_def)


end
